theory Spec2Isabelle
  imports
    Main
    "HOL-Library.Char_ord"
    "HOL-Library.List_Lexorder"
    "HOL-Library.Sublist"
    "HOL-Library.AList"
begin

section \<open>Python values used by the scraper\<close>

text \<open>
  Python strings are modelled as \<^typ>\<open>string\<close>; a character stands for the code point of
  the same number, so the model covers the code points below 256. Lists of strings are
  ordered as Python orders them (lexicographically by code point). Exceptions are values
  of the type \<open>error\<close>; a function that may raise returns \<open>error + 'a\<close>.
\<close>

datatype error =
    ValueError
  | RuntimeError
  | SourceError
  | OverflowError

text \<open>\<open>str.isspace\<close>, which is also the class \<open>\s\<close> of a \<open>str\<close> pattern.\<close>

definition isspace :: "char \<Rightarrow> bool" where
  "isspace c = ((of_char c :: nat) \<in> set [9, 10, 11, 12, 13, 28, 29, 30, 31, 32, 133, 160])"

text \<open>\<open>str.lower\<close> on one code point below 256.\<close>

definition lower_char :: "char \<Rightarrow> char" where
  "lower_char c =
     (let n = (of_char c :: nat)
      in if (65 \<le> n \<and> n \<le> 90) \<or> (192 \<le> n \<and> n \<le> 222 \<and> n \<noteq> 215)
         then char_of (n + 32) else c)"

definition lower :: "string \<Rightarrow> string" where
  "lower s = map lower_char s"

text \<open>\<open>s.lstrip(chars)\<close>, \<open>s.rstrip(chars)\<close> and \<open>s.strip()\<close>.\<close>

definition lstrip :: "(char \<Rightarrow> bool) \<Rightarrow> string \<Rightarrow> string" where
  "lstrip P s = dropWhile P s"

definition rstrip :: "(char \<Rightarrow> bool) \<Rightarrow> string \<Rightarrow> string" where
  "rstrip P s = rev (dropWhile P (rev s))"

definition strip :: "string \<Rightarrow> string" where
  "strip s = rstrip isspace (lstrip isspace s)"

text \<open>\<open>str(n)\<close> for an integer: its decimal digits, with a leading minus sign.\<close>

definition digit_char :: "nat \<Rightarrow> char" where
  "digit_char d = char_of (48 + d)"

fun str_nat :: "nat \<Rightarrow> string" where
  "str_nat n = (if n < 10 then [digit_char n] else str_nat (n div 10) @ [digit_char (n mod 10)])"

declare str_nat.simps [simp del]

definition str_int :: "int \<Rightarrow> string" where
  "str_int i = (if i < 0 then CHR ''-'' # str_nat (nat (- i)) else str_nat (nat i))"

text \<open>
  A \<open>dict\<close> is an association list in insertion order; \<open>d[k] = v\<close> is
  \<^const>\<open>AList.update\<close>: the value of an existing key is overwritten in place, a new key
  is appended.
\<close>

type_synonym ('k, 'v) dict = "('k \<times> 'v) list"


section \<open>extractors.py\<close>

subsection \<open>Messages of the message source\<close>

text \<open>
  The fields of a Telethon message that the scraper reads. An attribute read with
  \<open>getattr(obj, name, default)\<close> is an \<open>option\<close>: \<open>None\<close> when the attribute is absent or
  \<open>None\<close>. \<open>str_repr\<close> is \<open>str(reaction_obj)\<close>.
\<close>

record reaction_obj =
  emoticon :: "string option"
  document_id :: "int option"
  str_repr :: string

record reaction_count =
  reaction :: "reaction_obj option"
  count_attr :: "int option"

record message_reactions =
  results :: "reaction_count list option"

datatype entity =
    MessageEntityTextUrl (entity_url: "string option")
  | OtherEntity

text \<open>
  \<open>msg_date\<close> is the wall-clock reading of \<open>message.date\<close> in microseconds since
  1970-01-01T00:00:00 together with its UTC offset in microseconds (\<open>None\<close> for a naive
  datetime).
\<close>

record datetime =
  wall :: int
  utcoffset :: "int option"

record message =
  msg_id :: int
  msg_date :: "datetime option"
  msg_message :: "string option"
  msg_entities :: "entity list option"
  msg_reactions :: "message_reactions option"
  msg_views :: "int option"
  msg_forwards :: "int option"

subsection \<open>URL discovery\<close>

definition RESEARCH_HOST_SUFFIXES :: "string list" where
  "RESEARCH_HOST_SUFFIXES =
     [''arxiv.org'', ''openreview.net'', ''aclanthology.org'', ''proceedings.mlr.press'',
      ''jmlr.org'', ''paperswithcode.com'', ''ieeexplore.ieee.org'', ''link.springer.com'',
      ''sciencedirect.com'', ''nature.com'', ''science.org'', ''doi.org'']"

definition TELEGRAM_HOST_SUFFIXES :: "string list" where
  "TELEGRAM_HOST_SUFFIXES = [''t.me'', ''telegram.me'', ''telegram.dog'', ''telegram.org'']"

text \<open>
  \<open>URL_REGEX = (https?://[^\s)\]>"']+)\<close>. \<open>url_char\<close> is the character class of the
  pattern; \<open>url_match s\<close> is the match of the pattern at the start of \<open>s\<close>, if there is
  one; \<open>findall\<close> returns the leftmost non-overlapping matches as \<open>re.findall\<close> does
  (after a match of length \<open>n\<close> the scan resumes \<open>n\<close> characters further).
\<close>

definition url_char :: "char \<Rightarrow> bool" where
  "url_char c = (\<not> isspace c \<and> c \<notin> set [CHR '')'', CHR '']'', CHR ''>'', CHR 0x22, CHR 0x27])"

definition url_match :: "string \<Rightarrow> string option" where
  "url_match s =
     (let pre = (if prefix ''https://'' s then Some ''https://''
                 else if prefix ''http://'' s then Some ''http://'' else None)
      in case pre of
           None \<Rightarrow> None
         | Some p \<Rightarrow>
             (let body = takeWhile url_char (drop (length p) s)
              in if body = [] then None else Some (p @ body)))"

fun findall_from :: "nat \<Rightarrow> string \<Rightarrow> string list" where
  "findall_from skip [] = []"
| "findall_from (Suc skip) (c # cs) = findall_from skip cs"
| "findall_from 0 (c # cs) =
     (case url_match (c # cs) of
        Some m \<Rightarrow> m # findall_from (length m - 1) cs
      | None \<Rightarrow> findall_from 0 cs)"

definition findall :: "string \<Rightarrow> string list" where
  "findall text = findall_from 0 text"

definition trailing_punct :: "char \<Rightarrow> bool" where
  "trailing_punct c = (c \<in> set ''.,;:!?'')"

definition entity_urls :: "entity list \<Rightarrow> string list" where
  "entity_urls es =
     concat (map (\<lambda>e. case e of
                        MessageEntityTextUrl (Some u) \<Rightarrow> (if u \<noteq> [] then [strip u] else [])
                      | _ \<Rightarrow> []) es)"

definition extract_urls :: "message \<Rightarrow> string list" where
  "extract_urls m =
     (let text = (case msg_message m of Some t \<Rightarrow> t | None \<Rightarrow> '''');
          entities = (case msg_entities m of Some es \<Rightarrow> es | None \<Rightarrow> []);
          urls = map (rstrip trailing_punct) (findall text) @ entity_urls entities
      in sort (remdups urls))"

subsection \<open>Link classification\<close>

text \<open>
  \<open>urlparse(url).netloc\<close>, following \<open>urllib.parse.urlsplit\<close>: leading C0 control
  characters and spaces are stripped, tabs and newlines are removed, a scheme
  \<open>[A-Za-z][A-Za-z0-9+.-]*:\<close> is split off, and after a leading \<open>//\<close> the network location
  runs up to the first of \<open>/\<close>, \<open>?\<close>, \<open>#\<close>. A network location with an unmatched square
  bracket raises \<open>ValueError\<close>; one with both brackets is handed to
  \<open>_check_bracketed_host\<close>, which validates an IP literal and is the parameter \<open>chk\<close> here
  (\<open>True\<close> when it accepts the bracketed host).
\<close>

definition isalpha_ascii :: "char \<Rightarrow> bool" where
  "isalpha_ascii c =
     (let n = (of_char c :: nat) in (65 \<le> n \<and> n \<le> 90) \<or> (97 \<le> n \<and> n \<le> 122))"

definition scheme_char :: "char \<Rightarrow> bool" where
  "scheme_char c =
     (let n = (of_char c :: nat)
      in isalpha_ascii c \<or> (48 \<le> n \<and> n \<le> 57) \<or> c \<in> set ''+-.'')"

definition c0_control_or_space :: "char \<Rightarrow> bool" where
  "c0_control_or_space c = ((of_char c :: nat) \<le> 32)"

definition split_scheme :: "string \<Rightarrow> string" where
  "split_scheme url =
     (let pre = takeWhile (\<lambda>c. c \<noteq> CHR '':'') url
      in if pre \<noteq> [] \<and> length pre < length url \<and> isalpha_ascii (hd url) \<and> list_all scheme_char pre
         then drop (length pre + 1) url
         else url)"

definition bracketed_host :: "string \<Rightarrow> string" where
  "bracketed_host netloc =
     takeWhile (\<lambda>c. c \<noteq> CHR '']'') (drop 1 (dropWhile (\<lambda>c. c \<noteq> CHR ''['') netloc))"

definition urlparse_netloc :: "(string \<Rightarrow> bool) \<Rightarrow> string \<Rightarrow> error + string" where
  "urlparse_netloc chk url0 =
     (let url1 = lstrip c0_control_or_space url0;
          url2 = filter (\<lambda>c. c \<notin> set [CHR 0x09, CHR 0x0D, CHR 0x0A]) url1;
          url = split_scheme url2
      in if take 2 url = ''//''
         then (let netloc = takeWhile (\<lambda>c. c \<notin> set ''/?#'') (drop 2 url);
                   lb = (CHR ''['' \<in> set netloc);
                   rb = (CHR '']'' \<in> set netloc)
               in if (lb \<and> \<not> rb) \<or> (rb \<and> \<not> lb) then Inl ValueError
                  else if lb \<and> rb \<and> \<not> chk (bracketed_host netloc) then Inl ValueError
                  else Inr netloc)
         else Inr '''')"

text \<open>
  The body of \<open>classify_link\<close> once \<open>host\<close> is bound: the \<open>github.com\<close> test, the two
  suffix loops in the order of the source, then the fallbacks.
\<close>

definition host_matches :: "string \<Rightarrow> string \<Rightarrow> bool" where
  "host_matches host sfx = (host = sfx \<or> suffix (''.'' @ sfx) host)"

definition classify_host :: "string \<Rightarrow> string" where
  "classify_host host =
     (if sublist ''github.com'' host then ''github''
      else if list_ex (host_matches host) TELEGRAM_HOST_SUFFIXES then ''telegram''
      else if list_ex (host_matches host) RESEARCH_HOST_SUFFIXES then ''research''
      else if host \<noteq> [] then ''article''
      else ''other'')"

definition classify_link :: "(string \<Rightarrow> bool) \<Rightarrow> string \<Rightarrow> error + string" where
  "classify_link chk url =
     (case urlparse_netloc chk url of
        Inl e \<Rightarrow> Inl e
      | Inr netloc \<Rightarrow> Inr (classify_host (lower netloc)))"

fun links_with_types :: "(string \<Rightarrow> bool) \<Rightarrow> string list \<Rightarrow> error + (string \<times> string) list" where
  "links_with_types chk [] = Inr []"
| "links_with_types chk (url # urls) =
     (case classify_link chk url of
        Inl e \<Rightarrow> Inl e
      | Inr t \<Rightarrow> (case links_with_types chk urls of
                    Inl e \<Rightarrow> Inl e
                  | Inr rest \<Rightarrow> Inr ((url, t) # rest)))"

subsection \<open>Reactions\<close>

definition reaction_key :: "reaction_count \<Rightarrow> string" where
  "reaction_key item =
     (case reaction item of
        None \<Rightarrow> ''unknown''
      | Some r \<Rightarrow>
          (case emoticon r of
             Some e \<Rightarrow> (if e \<noteq> [] then e else
                (case document_id r of
                   Some d \<Rightarrow> (if d \<noteq> 0 then ''custom_'' @ str_int d else str_repr r)
                 | None \<Rightarrow> str_repr r))
           | None \<Rightarrow>
                (case document_id r of
                   Some d \<Rightarrow> (if d \<noteq> 0 then ''custom_'' @ str_int d else str_repr r)
                 | None \<Rightarrow> str_repr r)))"

definition reaction_value :: "reaction_count \<Rightarrow> int" where
  "reaction_value item = (case count_attr item of Some c \<Rightarrow> c | None \<Rightarrow> 0)"

fun collect_reactions :: "(string, int) dict \<Rightarrow> reaction_count list \<Rightarrow> (string, int) dict" where
  "collect_reactions d [] = d"
| "collect_reactions d (item # items) =
     collect_reactions (AList.update (reaction_key item) (reaction_value item) d) items"

definition extract_reactions :: "message \<Rightarrow> (string, int) dict" where
  "extract_reactions m =
     (case msg_reactions m of
        None \<Rightarrow> []
      | Some rs \<Rightarrow>
          (case results rs of
             None \<Rightarrow> []
           | Some [] \<Rightarrow> []
           | Some items \<Rightarrow> collect_reactions [] items))"

definition total_reactions :: "(string, int) dict \<Rightarrow> int" where
  "total_reactions reactions = sum_list (map snd reactions)"

section \<open>db.py\<close>

text \<open>
  The three tables of the schema as lists of rows in rowid order, and the
  \<open>sqlite_sequence\<close> counters of the \<open>AUTOINCREMENT\<close> keys. \<open>snapshot_date\<close> holds
  \<open>date.isoformat()\<close>, a zero-padded \<open>YYYY-MM-DD\<close> text whose bytewise order is the order
  of the dates; the model stores the day number of the date (days since 1970-01-01) and
  compares day numbers.
\<close>

record post_row =
  p_id :: int
  p_channel_id :: int
  p_channel_username :: "string option"
  p_channel_title :: string
  p_message_id :: int
  p_post_url :: "string option"
  p_post_datetime :: string
  p_message_text :: "string option"
  p_views :: "int option"
  p_forwards :: "int option"

record link_row =
  l_id :: int
  l_post_id :: int
  l_url :: string
  l_link_type :: string

record snapshot_row =
  s_id :: int
  s_post_id :: int
  s_snapshot_date :: int
  s_total_reactions :: int
  s_reactions_json :: string
  s_views :: "int option"
  s_forwards :: "int option"

record db =
  posts :: "post_row list"
  links :: "link_row list"
  snapshots :: "snapshot_row list"
  seq_posts :: int
  seq_links :: int
  seq_snapshots :: int


text \<open>
  The rowid of an \<open>INSERT\<close> into an \<open>AUTOINCREMENT\<close> table: one more than the largest
  rowid the table holds or has ever handed out. SQLite hands a rowid out before it looks
  for a conflict, so an \<open>INSERT\<close> that ends in \<open>DO UPDATE\<close> or is ignored advances the
  counter too.
\<close>

definition new_rowid :: "int \<Rightarrow> int list \<Rightarrow> int" where
  "new_rowid seq ids = fold max ids seq + 1"

definition same_post :: "int \<Rightarrow> int \<Rightarrow> post_row \<Rightarrow> bool" where
  "same_post channel_id message_id p =
     (p_channel_id p = channel_id \<and> p_message_id p = message_id)"

text \<open>The \<open>DO UPDATE SET\<close> clause of \<open>upsert_post\<close> on the conflicting row.\<close>

definition update_post ::
  "string option \<Rightarrow> string \<Rightarrow> string option \<Rightarrow> string \<Rightarrow> string option \<Rightarrow> int option
      \<Rightarrow> int option \<Rightarrow> post_row \<Rightarrow> post_row" where
  "update_post channel_username channel_title post_url post_datetime message_text views
       forwards p =
     p\<lparr>p_channel_username := channel_username,
       p_channel_title := channel_title,
       p_post_url := post_url,
       p_post_datetime := post_datetime,
       p_message_text := message_text,
       p_views := views,
       p_forwards := forwards\<rparr>"

definition upsert_post ::
  "db \<Rightarrow> int \<Rightarrow> string option \<Rightarrow> string \<Rightarrow> int \<Rightarrow> string option \<Rightarrow> string
      \<Rightarrow> string option \<Rightarrow> int option \<Rightarrow> int option \<Rightarrow> error + (int \<times> db)" where
  "upsert_post conn channel_id channel_username channel_title message_id post_url
       post_datetime message_text views forwards =
     (let rid = new_rowid (seq_posts conn) (map p_id (posts conn));
          posts' =
            (if list_ex (same_post channel_id message_id) (posts conn)
             then map (\<lambda>p. if same_post channel_id message_id p
                             then update_post channel_username channel_title post_url
                                    post_datetime message_text views forwards p
                             else p) (posts conn)
             else posts conn @
                    [\<lparr>p_id = rid, p_channel_id = channel_id,
                      p_channel_username = channel_username,
                      p_channel_title = channel_title, p_message_id = message_id,
                      p_post_url = post_url, p_post_datetime = post_datetime,
                      p_message_text = message_text, p_views = views,
                      p_forwards = forwards\<rparr>]);
          conn' = conn\<lparr>posts := posts', seq_posts := rid\<rparr>
      in case find (same_post channel_id message_id) posts' of
           None \<Rightarrow> Inl RuntimeError
         | Some row \<Rightarrow> Inr (p_id row, conn'))"

definition insert_or_ignore_link :: "int \<Rightarrow> string \<times> string \<Rightarrow> db \<Rightarrow> db" where
  "insert_or_ignore_link post_id lk conn =
     (let rid = new_rowid (seq_links conn) (map l_id (links conn))
      in if list_ex (\<lambda>l. l_post_id l = post_id \<and> l_url l = fst lk) (links conn)
         then conn\<lparr>seq_links := rid\<rparr>
         else conn\<lparr>links := links conn @
                        [\<lparr>l_id = rid, l_post_id = post_id, l_url = fst lk,
                          l_link_type = snd lk\<rparr>],
                   seq_links := rid\<rparr>)"

definition replace_links :: "db \<Rightarrow> int \<Rightarrow> (string \<times> string) list \<Rightarrow> db" where
  "replace_links conn post_id lks =
     (let conn1 = conn\<lparr>links := filter (\<lambda>l. l_post_id l \<noteq> post_id) (links conn)\<rparr>
      in if lks = [] then conn1
         else fold (insert_or_ignore_link post_id) lks conn1)"

text \<open>
  \<open>json.dumps(reactions, ensure_ascii=True, sort_keys=True)\<close>: the keys in sorted
  order, \<open>", "\<close> between the items and \<open>": "\<close> after each key. \<open>encode_basestring\<close> is
  the string encoder of the \<open>json\<close> module: with \<open>ensure_ascii\<close> every character outside
  the printable ASCII range is written as \<open>\u00XX\<close>, without it only the control
  characters are.
\<close>

definition hex_char :: "nat \<Rightarrow> char" where
  "hex_char d = (if d < 10 then char_of (48 + d) else char_of (87 + d))"

definition escape_char :: "bool \<Rightarrow> char \<Rightarrow> string" where
  "escape_char ensure_ascii c =
     (let n = (of_char c :: nat)
      in if c = CHR 0x22 then [CHR 0x5C, CHR 0x22]
         else if c = CHR 0x5C then [CHR 0x5C, CHR 0x5C]
         else if n = 10 then [CHR 0x5C, CHR ''n'']
         else if n = 13 then [CHR 0x5C, CHR ''r'']
         else if n = 9 then [CHR 0x5C, CHR ''t'']
         else if n = 8 then [CHR 0x5C, CHR ''b'']
         else if n = 12 then [CHR 0x5C, CHR ''f'']
         else if n < 32 \<or> (ensure_ascii \<and> 126 < n)
           then [CHR 0x5C, CHR ''u'', CHR ''0'', CHR ''0'', hex_char (n div 16), hex_char (n mod 16)]
         else [c])"

definition encode_basestring :: "bool \<Rightarrow> string \<Rightarrow> string" where
  "encode_basestring ensure_ascii s =
     CHR 0x22 # concat (map (escape_char ensure_ascii) s) @ [CHR 0x22]"

fun join :: "string \<Rightarrow> string list \<Rightarrow> string" where
  "join sep [] = []"
| "join sep [x] = x"
| "join sep (x # y # ys) = x @ sep @ join sep (y # ys)"

definition dumps_reactions :: "(string, int) dict \<Rightarrow> string" where
  "dumps_reactions reactions =
     ''{'' @ join '', '' (map (\<lambda>kv. encode_basestring True (fst kv) @ '': '' @ str_int (snd kv))
                             (sort_key fst reactions)) @ ''}''"

definition same_snapshot :: "int \<Rightarrow> int \<Rightarrow> snapshot_row \<Rightarrow> bool" where
  "same_snapshot post_id snapshot_date s =
     (s_post_id s = post_id \<and> s_snapshot_date s = snapshot_date)"

text \<open>The \<open>DO UPDATE SET\<close> clause of \<open>upsert_snapshot\<close> on the conflicting row.\<close>

definition update_snapshot ::
  "int \<Rightarrow> string \<Rightarrow> int option \<Rightarrow> int option \<Rightarrow> snapshot_row \<Rightarrow> snapshot_row" where
  "update_snapshot n_reactions reactions_json views forwards s =
     s\<lparr>s_total_reactions := n_reactions,
       s_reactions_json := reactions_json,
       s_views := views,
       s_forwards := forwards\<rparr>"

definition upsert_snapshot ::
  "db \<Rightarrow> int \<Rightarrow> int \<Rightarrow> int \<Rightarrow> (string, int) dict \<Rightarrow> int option \<Rightarrow> int option \<Rightarrow> db" where
  "upsert_snapshot conn post_id snapshot_date n_reactions reactions views forwards =
     (let rid = new_rowid (seq_snapshots conn) (map s_id (snapshots conn));
          snapshots' =
            (if list_ex (same_snapshot post_id snapshot_date) (snapshots conn)
             then map (\<lambda>s. if same_snapshot post_id snapshot_date s
                             then update_snapshot n_reactions (dumps_reactions reactions)
                                    views forwards s
                             else s) (snapshots conn)
             else snapshots conn @
                    [\<lparr>s_id = rid, s_post_id = post_id, s_snapshot_date = snapshot_date,
                      s_total_reactions = n_reactions,
                      s_reactions_json = dumps_reactions reactions,
                      s_views = views, s_forwards = forwards\<rparr>])
      in conn\<lparr>snapshots := snapshots', seq_snapshots := rid\<rparr>)"


section \<open>service.py\<close>

record ScrapeStats =
  channels_total :: int
  channels_ok :: int
  channels_failed :: int
  posts_processed :: int

text \<open>
  Instants are integers: microseconds since 1970-01-01T00:00:00 UTC. \<open>_normalize_dt\<close>
  maps a datetime to its UTC instant: a naive datetime is read as UTC, an aware one is
  converted with its offset.
\<close>

definition normalize_dt :: "datetime \<Rightarrow> int" where
  "normalize_dt dt = (case utcoffset dt of None \<Rightarrow> wall dt | Some off \<Rightarrow> wall dt - off)"

definition microseconds_per_day :: int where
  "microseconds_per_day = 86400000000"

text \<open>\<open>datetime.date()\<close> of a UTC instant, as a day number.\<close>

definition date_of :: "int \<Rightarrow> int" where
  "date_of t = t div microseconds_per_day"

text \<open>
  The dates and datetimes of Python are those of the years 1 to 9999: the day numbers
  from \<open>min_day\<close> (0001-01-01) to \<open>max_day\<close> (9999-12-31). \<open>timedelta(days=n)\<close> raises
  \<open>OverflowError\<close> when the magnitude of \<open>n\<close> is above 999999999, and so does a
  subtraction \<open>date - timedelta\<close> or \<open>datetime - timedelta\<close> whose result is outside
  these years.
\<close>

definition min_day :: int where
  "min_day = - 719162"

definition max_day :: int where
  "max_day = 2932896"

definition timedelta_days :: "int \<Rightarrow> error + int" where
  "timedelta_days n =
     (if - 999999999 \<le> n \<and> n \<le> 999999999 then Inr n else Inl OverflowError)"

definition date_sub :: "int \<Rightarrow> int \<Rightarrow> error + int" where
  "date_sub day n =
     (if min_day \<le> day - n \<and> day - n \<le> max_day then Inr (day - n) else Inl OverflowError)"

definition datetime_sub :: "int \<Rightarrow> int \<Rightarrow> error + int" where
  "datetime_sub t n =
     (let t' = t - n * microseconds_per_day
      in if min_day \<le> date_of t' \<and> date_of t' \<le> max_day then Inr t'
         else Inl OverflowError)"

text \<open>
  \<open>datetime.isoformat()\<close> of a UTC datetime:
  \<open>YYYY-MM-DDTHH:MM:SS[.ffffff]+00:00\<close>. \<open>civil_from_days\<close> is the proleptic Gregorian
  date of a day number.
\<close>

definition civil_from_days :: "int \<Rightarrow> int \<times> int \<times> int" where
  "civil_from_days z0 =
     (let z = z0 + 719468;
          era = z div 146097;
          doe = z - era * 146097;
          yoe = (doe - doe div 1460 + doe div 36524 - doe div 146096) div 365;
          doy = doe - (365 * yoe + yoe div 4 - yoe div 100);
          mp = (5 * doy + 2) div 153;
          d = doy - (153 * mp + 2) div 5 + 1;
          m = (if mp < 10 then mp + 3 else mp - 9);
          y = yoe + era * 400 + (if m \<le> 2 then 1 else 0)
      in (y, m, d))"

definition zero_pad :: "nat \<Rightarrow> int \<Rightarrow> string" where
  "zero_pad width n = (let s = str_int n in replicate (width - length s) CHR ''0'' @ s)"

definition isoformat :: "int \<Rightarrow> string" where
  "isoformat t =
     (let days = t div microseconds_per_day;
          rest = t mod microseconds_per_day;
          secs = rest div 1000000;
          us = rest mod 1000000
      in case civil_from_days days of (y, m, d) \<Rightarrow>
           zero_pad 4 y @ ''-'' @ zero_pad 2 m @ ''-'' @ zero_pad 2 d @ ''T''
           @ zero_pad 2 (secs div 3600) @ '':'' @ zero_pad 2 (secs mod 3600 div 60) @ '':''
           @ zero_pad 2 (secs mod 60)
           @ (if us \<noteq> 0 then ''.'' @ zero_pad 6 us else [])
           @ ''+00:00'')"

text \<open>
  The Telegram client. \<open>get_entity\<close> resolves a channel or raises: one of the three
  errors of the first \<open>except\<close> clause (\<open>ChannelUnavailable\<close>) or any other exception
  (\<open>UnexpectedError\<close>). \<open>iter_messages\<close> is the newest-first stream of the channel; an
  element \<open>Raises\<close> is the point at which the stream raises instead of yielding.
\<close>

record channel_entity =
  e_title :: "string option"
  e_username :: "string option"
  e_id :: int

datatype get_entity_result =
    ChannelUnavailable
  | UnexpectedError
  | Resolved channel_entity

datatype stream_item =
    Yields message
  | Raises

record client =
  get_entity :: "string \<Rightarrow> get_entity_result"
  iter_messages :: "channel_entity \<Rightarrow> stream_item list"

record Settings =
  settings_channels :: "string list"
  settings_lookback_days :: int

text \<open>
  The body of the message loop from \<open>extract_urls\<close> to \<open>upsert_snapshot\<close>:
  the three writes of one message.
\<close>

definition ingest_message ::
  "(string \<Rightarrow> bool) \<Rightarrow> db \<Rightarrow> int \<Rightarrow> string option \<Rightarrow> string \<Rightarrow> int \<Rightarrow> int \<Rightarrow> message
     \<Rightarrow> error + db" where
  "ingest_message chk conn channel_id channel_username channel_title snapshot_day msg_dt m =
     (let urls = extract_urls m;
          reactions_map = extract_reactions m;
          post_url = (case channel_username of
                        None \<Rightarrow> None
                      | Some u \<Rightarrow> if u = [] then None
                                  else Some (''https://t.me/'' @ u @ ''/'' @ str_int (msg_id m)))
      in case upsert_post conn channel_id channel_username channel_title (msg_id m) post_url
                (isoformat msg_dt) (msg_message m) (msg_views m) (msg_forwards m) of
           Inl e \<Rightarrow> Inl e
         | Inr (post_id, conn1) \<Rightarrow>
             (case links_with_types chk urls of
                Inl e \<Rightarrow> Inl e
              | Inr lks \<Rightarrow>
                  Inr (upsert_snapshot (replace_links conn1 post_id lks) post_id snapshot_day
                         (total_reactions reactions_map) reactions_map
                         (msg_views m) (msg_forwards m))))"

text \<open>
  \<open>async for message in client.iter_messages(entity)\<close>: a message without date is
  skipped, the first message older than \<open>since_dt\<close> ends the loop, an exception leaves it.
  The result is \<open>posts_in_channel\<close> and the connection.
\<close>

fun process_messages ::
  "(string \<Rightarrow> bool) \<Rightarrow> int \<Rightarrow> int \<Rightarrow> int \<Rightarrow> string option \<Rightarrow> string \<Rightarrow> db \<Rightarrow> int
     \<Rightarrow> stream_item list \<Rightarrow> error + (int \<times> db)" where
  "process_messages chk since_dt snapshot_day cid cuser ctitle conn n [] = Inr (n, conn)"
| "process_messages chk since_dt snapshot_day cid cuser ctitle conn n (Raises # rest) =
     Inl SourceError"
| "process_messages chk since_dt snapshot_day cid cuser ctitle conn n (Yields m # rest) =
     (case msg_date m of
        None \<Rightarrow> process_messages chk since_dt snapshot_day cid cuser ctitle conn n rest
      | Some date \<Rightarrow>
          (let msg_dt = normalize_dt date
           in if msg_dt < since_dt then Inr (n, conn)
              else (case ingest_message chk conn cid cuser ctitle snapshot_day msg_dt m of
                      Inl e \<Rightarrow> Inl e
                    | Inr conn' \<Rightarrow>
                        process_messages chk since_dt snapshot_day cid cuser ctitle conn'
                          (n + 1) rest)))"

text \<open>
  \<open>for raw_channel in self.settings.channels\<close>. Only \<open>get_entity\<close> is inside the
  \<open>try\<close>: its exceptions count the channel as failed; an exception of the rest of the
  loop body leaves the function.
\<close>

fun scrape_channels ::
  "(string \<Rightarrow> bool) \<Rightarrow> client \<Rightarrow> int \<Rightarrow> int \<Rightarrow> ScrapeStats \<Rightarrow> db \<Rightarrow> string list
     \<Rightarrow> error + (ScrapeStats \<times> db)" where
  "scrape_channels chk cl since_dt snapshot_day stats conn [] = Inr (stats, conn)"
| "scrape_channels chk cl since_dt snapshot_day stats conn (raw_channel # rest) =
     (let channel = lstrip (\<lambda>c. c = CHR ''@'') raw_channel
      in case get_entity cl channel of
           ChannelUnavailable \<Rightarrow>
             scrape_channels chk cl since_dt snapshot_day
               (stats\<lparr>channels_failed := channels_failed stats + 1\<rparr>) conn rest
         | UnexpectedError \<Rightarrow>
             scrape_channels chk cl since_dt snapshot_day
               (stats\<lparr>channels_failed := channels_failed stats + 1\<rparr>) conn rest
         | Resolved entity \<Rightarrow>
             (let channel_title = (case e_title entity of Some t \<Rightarrow> t | None \<Rightarrow> channel);
                  channel_username = e_username entity;
                  channel_id = e_id entity
              in case process_messages chk since_dt snapshot_day channel_id channel_username
                        channel_title conn 0 (iter_messages cl entity) of
                   Inl e \<Rightarrow> Inl e
                 | Inr (posts_in_channel, conn') \<Rightarrow>
                     scrape_channels chk cl since_dt snapshot_day
                       (stats\<lparr>channels_ok := channels_ok stats + 1,
                              posts_processed := posts_processed stats + posts_in_channel\<rparr>)
                       conn' rest))"

text \<open>
  \<open>scrape_lookback\<close> at the instant \<open>now\<close> on the committed store \<open>conn0\<close>. It returns
  the statistics, or the exception that left it, and the committed store afterwards:
  \<open>conn.commit()\<close> is the last statement of the \<open>with\<close> block, so a run that raises
  commits nothing. The cutoff \<open>datetime.now(timezone.utc) - timedelta(days=...)\<close> is
  computed before the client is started, and raises \<open>OverflowError\<close> when the lookback or
  the cutoff is out of range.
\<close>

definition scrape_lookback ::
  "(string \<Rightarrow> bool) \<Rightarrow> Settings \<Rightarrow> client \<Rightarrow> int \<Rightarrow> db \<Rightarrow> int option
     \<Rightarrow> (error + ScrapeStats) \<times> db" where
  "scrape_lookback chk settings cl now conn0 lookback_days =
     (let effective_lookback =
            (case lookback_days of
               None \<Rightarrow> settings_lookback_days settings
             | Some d \<Rightarrow> if d = 0 then settings_lookback_days settings else d)
      in case timedelta_days effective_lookback of
           Inl e \<Rightarrow> (Inl e, conn0)
         | Inr n \<Rightarrow>
             (case datetime_sub now n of
                Inl e \<Rightarrow> (Inl e, conn0)
              | Inr since_dt \<Rightarrow>
                  (let snapshot_day = date_of now;
                       stats = \<lparr>channels_total = int (length (settings_channels settings)),
                                channels_ok = 0, channels_failed = 0, posts_processed = 0\<rparr>
                   in case scrape_channels chk cl since_dt snapshot_day stats conn0
                             (settings_channels settings) of
                        Inl e \<Rightarrow> (Inl e, conn0)
                      | Inr (stats', conn) \<Rightarrow> (Inr stats', conn))))"


section \<open>reporting.py\<close>

record TopPost =
  channel_title :: string
  channel_username :: "string option"
  message_id :: int
  post_url :: "string option"
  post_datetime :: string
  message_text :: "string option"
  latest_reactions :: int
  reactions_growth :: int
  latest_views :: "int option"
  latest_forwards :: "int option"
  github_links :: "string list"
  research_links :: "string list"
  article_links :: "string list"

text \<open>
  \<open>_window_start\<close> on the day number \<open>today\<close> of \<open>date.today()\<close>:
  \<open>date.today() - timedelta(days=max(1, lookback_days) - 1)\<close>, which raises
  \<open>OverflowError\<close> when the number of days or the resulting date is out of range.
\<close>

definition window_start :: "int \<Rightarrow> int \<Rightarrow> error + int" where
  "window_start today lookback_days =
     (case timedelta_days (max 1 lookback_days - 1) of
        Inl e \<Rightarrow> Inl e
      | Inr n \<Rightarrow> date_sub today n)"

fun split_links :: "link_row list \<Rightarrow> string list \<times> string list \<times> string list" where
  "split_links [] = ([], [], [])"
| "split_links (row # rows) =
     (case split_links rows of (github, research, article) \<Rightarrow>
        if l_link_type row = ''github'' then (l_url row # github, research, article)
        else if l_link_type row = ''research'' then (github, l_url row # research, article)
        else if l_link_type row = ''article'' then (github, research, l_url row # article)
        else (github, research, article))"

definition passes_link_filters ::
  "string list \<Rightarrow> string list \<Rightarrow> string list \<Rightarrow> bool \<Rightarrow> bool \<Rightarrow> bool \<Rightarrow> bool" where
  "passes_link_filters github research article require_external_links research_only
       require_github =
     (if require_github \<and> github = [] then False
      else if require_external_links \<and> \<not> (github \<noteq> [] \<or> research \<noteq> [] \<or> article \<noteq> [])
        then False
      else if research_only \<and> research = [] then False
      else True)"

text \<open>
  The ranking query, one definition per common table expression; a join is a list
  comprehension over the joined tables with the \<open>ON\<close> condition as guard.
\<close>

definition window :: "db \<Rightarrow> int \<Rightarrow> snapshot_row list" where
  "window conn start = filter (\<lambda>s. start \<le> s_snapshot_date s) (snapshots conn)"

definition dates_of_post :: "snapshot_row list \<Rightarrow> int \<Rightarrow> int list" where
  "dates_of_post w pid = map s_snapshot_date (filter (\<lambda>s. s_post_id s = pid) w)"

definition latest_by_post :: "snapshot_row list \<Rightarrow> (int \<times> int) list" where
  "latest_by_post w =
     map (\<lambda>pid. (pid, Max (set (dates_of_post w pid)))) (remdups (map s_post_id w))"

definition oldest_by_post :: "snapshot_row list \<Rightarrow> (int \<times> int) list" where
  "oldest_by_post w =
     map (\<lambda>pid. (pid, Min (set (dates_of_post w pid)))) (remdups (map s_post_id w))"

record metrics_row =
  m_post_id :: int
  m_latest_reactions :: int
  m_oldest_reactions :: int
  m_latest_views :: "int option"
  m_latest_forwards :: "int option"

definition metrics :: "snapshot_row list \<Rightarrow> metrics_row list" where
  "metrics w =
     [\<lparr>m_post_id = fst l,
       m_latest_reactions = s_total_reactions wl,
       m_oldest_reactions = s_total_reactions wo,
       m_latest_views = s_views wl,
       m_latest_forwards = s_forwards wl\<rparr>.
        l \<leftarrow> latest_by_post w,
        wl \<leftarrow> w, s_post_id wl = fst l \<and> s_snapshot_date wl = snd l,
        ol \<leftarrow> oldest_by_post w, fst ol = fst l,
        wo \<leftarrow> w, s_post_id wo = fst ol \<and> s_snapshot_date wo = snd ol]"

record top_row =
  r_id :: int
  r_channel_title :: string
  r_channel_username :: "string option"
  r_message_id :: int
  r_post_url :: "string option"
  r_post_datetime :: string
  r_message_text :: "string option"
  r_latest_reactions :: int
  r_reactions_growth :: int
  r_latest_views :: "int option"
  r_latest_forwards :: "int option"

definition select_rows :: "db \<Rightarrow> int \<Rightarrow> top_row list" where
  "select_rows conn start =
     [\<lparr>r_id = p_id p,
       r_channel_title = p_channel_title p,
       r_channel_username = p_channel_username p,
       r_message_id = p_message_id p,
       r_post_url = p_post_url p,
       r_post_datetime = p_post_datetime p,
       r_message_text = p_message_text p,
       r_latest_reactions = m_latest_reactions m,
       r_reactions_growth = m_latest_reactions m - m_oldest_reactions m,
       r_latest_views = m_latest_views m,
       r_latest_forwards = m_latest_forwards m\<rparr>.
        m \<leftarrow> metrics (window conn start),
        p \<leftarrow> posts conn, p_id p = m_post_id m]"

text \<open>
  \<open>ORDER BY m.latest_reactions DESC, reactions_growth DESC, p.post_datetime DESC\<close>:
  \<open>ranks_before a b\<close> holds when the three keys allow \<open>a\<close> before \<open>b\<close>. The text column
  \<open>post_datetime\<close> is compared bytewise. Rows equal on all three keys are left in the
  order of the join; SQLite promises no order among them.
\<close>

definition ranks_before :: "top_row \<Rightarrow> top_row \<Rightarrow> bool" where
  "ranks_before a b =
     (r_latest_reactions a > r_latest_reactions b
      \<or> (r_latest_reactions a = r_latest_reactions b
          \<and> (r_reactions_growth a > r_reactions_growth b
              \<or> (r_reactions_growth a = r_reactions_growth b
                  \<and> r_post_datetime a \<ge> r_post_datetime b))))"

fun insert_by :: "('a \<Rightarrow> 'a \<Rightarrow> bool) \<Rightarrow> 'a \<Rightarrow> 'a list \<Rightarrow> 'a list" where
  "insert_by le x [] = [x]"
| "insert_by le x (y # ys) = (if le x y then x # y # ys else y # insert_by le x ys)"

definition order_by :: "('a \<Rightarrow> 'a \<Rightarrow> bool) \<Rightarrow> 'a list \<Rightarrow> 'a list" where
  "order_by le xs = foldr (insert_by le) xs []"

definition candidates_limit :: "int \<Rightarrow> int" where
  "candidates_limit limit = max (limit * 10) 200"

text \<open>
  A Python integer bound to a parameter of a statement: \<open>sqlite3\<close> raises
  \<open>OverflowError\<close> for an integer that does not fit in 64 bits.
\<close>

definition sqlite_integer :: "int \<Rightarrow> error + int" where
  "sqlite_integer n =
     (if - 9223372036854775808 \<le> n \<and> n \<le> 9223372036854775807 then Inr n
      else Inl OverflowError)"

definition ranked_rows :: "db \<Rightarrow> int \<Rightarrow> top_row list" where
  "ranked_rows conn start = order_by ranks_before (select_rows conn start)"

definition query_rows :: "db \<Rightarrow> int \<Rightarrow> int \<Rightarrow> top_row list" where
  "query_rows conn start limit = take (nat (candidates_limit limit)) (ranked_rows conn start)"

text \<open>\<open>SELECT url, link_type FROM links WHERE post_id = ? ORDER BY id ASC\<close>.\<close>

definition link_rows_of :: "db \<Rightarrow> int \<Rightarrow> link_row list" where
  "link_rows_of conn pid = sort_key l_id (filter (\<lambda>l. l_post_id l = pid) (links conn))"

definition make_top_post :: "top_row \<Rightarrow> string list \<Rightarrow> string list \<Rightarrow> string list \<Rightarrow> TopPost" where
  "make_top_post row github research article =
     \<lparr>channel_title = r_channel_title row,
      channel_username = r_channel_username row,
      message_id = r_message_id row,
      post_url = r_post_url row,
      post_datetime = r_post_datetime row,
      message_text = r_message_text row,
      latest_reactions = r_latest_reactions row,
      reactions_growth = r_reactions_growth row,
      latest_views = r_latest_views row,
      latest_forwards = r_latest_forwards row,
      github_links = github,
      research_links = research,
      article_links = article\<rparr>"

text \<open>
  \<open>for row in rows\<close>: a row that fails the filters is skipped; a row that passes is
  appended, and the loop ends once \<open>len(result) >= limit\<close> after an append.
\<close>

fun collect_posts ::
  "db \<Rightarrow> int \<Rightarrow> bool \<Rightarrow> bool \<Rightarrow> bool \<Rightarrow> TopPost list \<Rightarrow> top_row list \<Rightarrow> TopPost list" where
  "collect_posts conn limit req_ext res_only req_github result [] = result"
| "collect_posts conn limit req_ext res_only req_github result (row # rows) =
     (case split_links (link_rows_of conn (r_id row)) of (github, research, article) \<Rightarrow>
        if \<not> passes_link_filters github research article req_ext res_only req_github
        then collect_posts conn limit req_ext res_only req_github result rows
        else (let result' = result @ [make_top_post row github research article]
              in if int (length result') \<ge> limit then result'
                 else collect_posts conn limit req_ext res_only req_github result' rows))"

text \<open>
  \<open>get_top_posts\<close>: the window start, the query with the parameters
  \<open>(start, candidates_limit)\<close>, and the loop over its rows. An exception of the window
  start or of the binding of \<open>candidates_limit\<close> leaves the function.
\<close>

definition get_top_posts ::
  "db \<Rightarrow> int \<Rightarrow> int \<Rightarrow> int \<Rightarrow> bool \<Rightarrow> bool \<Rightarrow> bool \<Rightarrow> error + TopPost list" where
  "get_top_posts conn today lookback_days limit require_external_links research_only
       require_github =
     (case window_start today lookback_days of
        Inl e \<Rightarrow> Inl e
      | Inr start \<Rightarrow>
          (case sqlite_integer (candidates_limit limit) of
             Inl e \<Rightarrow> Inl e
           | Inr n \<Rightarrow>
               Inr (collect_posts conn limit require_external_links research_only
                      require_github [] (query_rows conn start limit))))"


section \<open>Notions used to state the properties\<close>

text \<open>
  What the loop of \<open>get_top_posts\<close> computes for one row: whether the row passes the
  link filters, and the \<open>TopPost\<close> built from it.
\<close>

definition row_passes :: "db \<Rightarrow> bool \<Rightarrow> bool \<Rightarrow> bool \<Rightarrow> top_row \<Rightarrow> bool" where
  "row_passes conn req_ext res_only req_github row =
     (case split_links (link_rows_of conn (r_id row)) of (github, research, article) \<Rightarrow>
        passes_link_filters github research article req_ext res_only req_github)"

definition top_post_of :: "db \<Rightarrow> top_row \<Rightarrow> TopPost" where
  "top_post_of conn row =
     (case split_links (link_rows_of conn (r_id row)) of (github, research, article) \<Rightarrow>
        make_top_post row github research article)"

text \<open>The order of \<open>ranks_before\<close> on the fields of a \<open>TopPost\<close>.\<close>

definition post_ranks_before :: "TopPost \<Rightarrow> TopPost \<Rightarrow> bool" where
  "post_ranks_before a b =
     (latest_reactions a > latest_reactions b
      \<or> (latest_reactions a = latest_reactions b
          \<and> (reactions_growth a > reactions_growth b
              \<or> (reactions_growth a = reactions_growth b
                  \<and> post_datetime a \<ge> post_datetime b))))"


text \<open>
  The constraints of the schema: the primary keys and the three \<open>UNIQUE\<close> clauses.
  SQLite keeps them on every store.
\<close>

definition schema_ok :: "db \<Rightarrow> bool" where
  "schema_ok conn =
     (distinct (map p_id (posts conn))
      \<and> distinct (map (\<lambda>p. (p_channel_id p, p_message_id p)) (posts conn))
      \<and> distinct (map l_id (links conn))
      \<and> distinct (map (\<lambda>l. (l_post_id l, l_url l)) (links conn))
      \<and> distinct (map s_id (snapshots conn))
      \<and> distinct (map (\<lambda>s. (s_post_id s, s_snapshot_date s)) (snapshots conn)))"




text \<open>
  The lookback that \<open>scrape_lookback\<close> uses (\<open>lookback_days or settings.lookback_days\<close>),
  a stream element that ends the message loop, and a stream element that the loop
  ingests when it reaches it.
\<close>

definition effective_lookback :: "Settings \<Rightarrow> int option \<Rightarrow> int" where
  "effective_lookback settings lookback_days =
     (case lookback_days of
        None \<Rightarrow> settings_lookback_days settings
      | Some d \<Rightarrow> if d = 0 then settings_lookback_days settings else d)"

definition older_than :: "int \<Rightarrow> stream_item \<Rightarrow> bool" where
  "older_than since_dt item =
     (case item of
        Raises \<Rightarrow> False
      | Yields m \<Rightarrow> (case msg_date m of None \<Rightarrow> False | Some d \<Rightarrow> normalize_dt d < since_dt))"

definition dated :: "stream_item \<Rightarrow> bool" where
  "dated item = (case item of Raises \<Rightarrow> False | Yields m \<Rightarrow> msg_date m \<noteq> None)"





text \<open>The links of one post, as pairs of URL and category in the order of the table.\<close>

definition links_of :: "db \<Rightarrow> int \<Rightarrow> (string \<times> string) list" where
  "links_of conn pid =
     map (\<lambda>l. (l_url l, l_link_type l)) (filter (\<lambda>l. l_post_id l = pid) (links conn))"


section \<open>The structured export\<close>

text \<open>
  The values that \<open>json.dumps\<close> is given and that \<open>json.loads\<close> returns: \<open>None\<close>,
  booleans, integers, strings, lists, and dictionaries with string keys. Floats do not
  occur in the export and are not modelled.
\<close>

datatype json =
    JNull
  | JBool bool
  | JInt int
  | JStr string
  | JArr "json list"
  | JObj "(string \<times> json) list"

subsection \<open>\<open>_post_to_dict\<close> and \<open>export_top_posts_json\<close>\<close>

definition opt_str :: "string option \<Rightarrow> json" where
  "opt_str x = (case x of None \<Rightarrow> JNull | Some s \<Rightarrow> JStr s)"

definition opt_int :: "int option \<Rightarrow> json" where
  "opt_int x = (case x of None \<Rightarrow> JNull | Some i \<Rightarrow> JInt i)"

definition post_to_dict :: "TopPost \<Rightarrow> (string, json) dict" where
  "post_to_dict post =
     [(''channel_title'', JStr (channel_title post)),
      (''channel_username'', opt_str (channel_username post)),
      (''message_id'', JInt (message_id post)),
      (''post_url'', opt_str (post_url post)),
      (''post_datetime'', JStr (post_datetime post)),
      (''message_text'', opt_str (message_text post)),
      (''latest_reactions'', JInt (latest_reactions post)),
      (''reactions_growth'', JInt (reactions_growth post)),
      (''latest_views'', opt_int (latest_views post)),
      (''latest_forwards'', opt_int (latest_forwards post)),
      (''github_links'', JArr (map JStr (github_links post))),
      (''research_links'', JArr (map JStr (research_links post))),
      (''article_links'', JArr (map JStr (article_links post)))]"

text \<open>
  \<open>json.dumps(payload, ensure_ascii=False, indent=2)\<close>: an empty list or dictionary
  is \<open>[]\<close> or \<open>{}\<close>; otherwise every item starts on a new line, indented by two spaces
  for each level, the items are separated by a comma, a key is followed by a colon and
  a space, and the closing bracket is on a line of its own.
\<close>

definition newline_indent :: "nat \<Rightarrow> string" where
  "newline_indent level = CHR 0x0A # replicate (2 * level) CHR '' ''"

fun dumps :: "nat \<Rightarrow> json \<Rightarrow> string" where
  "dumps level JNull = ''null''"
| "dumps level (JBool b) = (if b then ''true'' else ''false'')"
| "dumps level (JInt i) = str_int i"
| "dumps level (JStr s) = encode_basestring False s"
| "dumps level (JArr items) =
     (if items = [] then ''[]''
      else ''['' @ newline_indent (Suc level)
           @ join ('','' @ newline_indent (Suc level)) (map (dumps (Suc level)) items)
           @ newline_indent level @ '']'')"
| "dumps level (JObj members) =
     (if members = [] then ''{}''
      else ''{'' @ newline_indent (Suc level)
           @ join ('','' @ newline_indent (Suc level))
               (map (\<lambda>kv. encode_basestring False (fst kv) @ '': ''
                            @ dumps (Suc level) (snd kv)) members)
           @ newline_indent level @ ''}'')"

text \<open>
  \<open>export_top_posts_json\<close>: the text that is written to \<open>output_path\<close>.
\<close>

definition export_top_posts_json :: "TopPost list \<Rightarrow> string" where
  "export_top_posts_json top_posts =
     dumps 0 (JArr (map (\<lambda>p. JObj (post_to_dict p)) top_posts))"

subsection \<open>Reading the export back: \<open>json.loads\<close>\<close>

text \<open>
  The decoder of the \<open>json\<close> module. Whitespace is space, tab, newline and carriage
  return. A string ends at the first unescaped quote; a backslash is followed by one of
  \<open>" \ / b f n r t\<close> or by \<open>u\<close> and four hexadecimal digits; an unescaped control
  character is an error. A number is an optional minus sign and \<open>0\<close> or a digit string
  without leading zero. The result is \<open>None\<close> on an error, and also on what the model
  has no value for: a number with fraction or exponent, and a \<open>\u\<close> escape above
  \<open>00FF\<close>.
\<close>

definition is_ws :: "char \<Rightarrow> bool" where
  "is_ws c = (c \<in> set [CHR '' '', CHR 0x09, CHR 0x0A, CHR 0x0D])"

definition skip_ws :: "string \<Rightarrow> string" where
  "skip_ws s = dropWhile is_ws s"

definition is_digit :: "char \<Rightarrow> bool" where
  "is_digit c = (48 \<le> (of_char c :: nat) \<and> (of_char c :: nat) \<le> 57)"

definition digit_val :: "char \<Rightarrow> nat" where
  "digit_val c = of_char c - 48"

definition hex_val :: "char \<Rightarrow> nat option" where
  "hex_val c =
     (let n = (of_char c :: nat)
      in if 48 \<le> n \<and> n \<le> 57 then Some (n - 48)
         else if 97 \<le> n \<and> n \<le> 102 then Some (n - 87)
         else if 65 \<le> n \<and> n \<le> 70 then Some (n - 55)
         else None)"

definition decode_uXXXX :: "string \<Rightarrow> char option" where
  "decode_uXXXX s =
     (case s of
        a # b # c # d # rest \<Rightarrow>
          (case (hex_val a, hex_val b, hex_val c, hex_val d) of
             (Some x3, Some x2, Some x1, Some x0) \<Rightarrow>
               if x3 = 0 \<and> x2 = 0 then Some (char_of (16 * x1 + x0)) else None
           | _ \<Rightarrow> None)
      | _ \<Rightarrow> None)"

definition backslash :: "char \<Rightarrow> char option" where
  "backslash esc =
     (if esc = CHR 0x22 then Some (CHR 0x22)
      else if esc = CHR 0x5C then Some (CHR 0x5C)
      else if esc = CHR ''/'' then Some (CHR ''/'')
      else if esc = CHR ''b'' then Some (CHR 0x08)
      else if esc = CHR ''f'' then Some (CHR 0x0C)
      else if esc = CHR ''n'' then Some (CHR 0x0A)
      else if esc = CHR ''r'' then Some (CHR 0x0D)
      else if esc = CHR ''t'' then Some (CHR 0x09)
      else None)"

text \<open>\<open>scanstring\<close> from the character after the opening quote.\<close>

fun scanstring :: "string \<Rightarrow> (string \<times> string) option" where
  "scanstring [] = None"
| "scanstring (c # cs) =
     (if c = CHR 0x22 then Some ([], cs)
      else if c = CHR 0x5C then
        (case cs of
           [] \<Rightarrow> None
         | esc # cs' \<Rightarrow>
             if esc = CHR ''u'' then
               (case decode_uXXXX cs' of
                  None \<Rightarrow> None
                | Some ch \<Rightarrow>
                    (case scanstring (drop 4 cs') of
                       None \<Rightarrow> None
                     | Some (s, rest) \<Rightarrow> Some (ch # s, rest)))
             else
               (case backslash esc of
                  None \<Rightarrow> None
                | Some ch \<Rightarrow>
                    (case scanstring cs' of
                       None \<Rightarrow> None
                     | Some (s, rest) \<Rightarrow> Some (ch # s, rest))))
      else if (of_char c :: nat) < 32 then None
      else (case scanstring cs of
              None \<Rightarrow> None
            | Some (s, rest) \<Rightarrow> Some (c # s, rest)))"

definition digits_value :: "string \<Rightarrow> nat" where
  "digits_value ds = foldl (\<lambda>a d. 10 * a + digit_val d) 0 ds"

text \<open>The two optional groups of the number pattern, which make the number a float.\<close>

definition has_fraction :: "string \<Rightarrow> bool" where
  "has_fraction s = (case s of c # d # rest \<Rightarrow> c = CHR ''.'' \<and> is_digit d | _ \<Rightarrow> False)"

definition has_exponent :: "string \<Rightarrow> bool" where
  "has_exponent s =
     (case s of
        e # rest \<Rightarrow>
          (e = CHR ''e'' \<or> e = CHR ''E'')
          \<and> (case rest of
                d # rest' \<Rightarrow>
                  is_digit d
                  \<or> ((d = CHR ''+'' \<or> d = CHR ''-'')
                      \<and> (case rest' of d' # rest'' \<Rightarrow> is_digit d' | [] \<Rightarrow> False))
              | [] \<Rightarrow> False)
      | [] \<Rightarrow> False)"

definition scan_natural :: "string \<Rightarrow> (nat \<times> string) option" where
  "scan_natural s =
     (case s of
        [] \<Rightarrow> None
      | c # cs \<Rightarrow>
          if c = CHR ''0'' then Some (0, cs)
          else if is_digit c
            then Some (digits_value (takeWhile is_digit s), dropWhile is_digit s)
          else None)"

definition scan_number :: "string \<Rightarrow> (int \<times> string) option" where
  "scan_number s =
     (case (case s of
              c # cs \<Rightarrow> if c = CHR ''-''
                       then map_option (\<lambda>(n, rest). (- int n, rest)) (scan_natural cs)
                       else map_option (\<lambda>(n, rest). (int n, rest)) (scan_natural s)
            | [] \<Rightarrow> None) of
        None \<Rightarrow> None
      | Some (i, rest) \<Rightarrow> if has_fraction rest \<or> has_exponent rest then None else Some (i, rest))"

text \<open>\<open>dict(pairs)\<close>: a later pair with the same key replaces the value of the earlier.\<close>

definition dict_of_pairs :: "(string \<times> json) list \<Rightarrow> (string, json) dict" where
  "dict_of_pairs pairs = fold (\<lambda>kv d. AList.update (fst kv) (snd kv) d) pairs []"

text \<open>
  \<open>scan_once\<close>, \<open>JSONArray\<close> and \<open>JSONObject\<close>. The first argument bounds the number of
  calls; \<open>loads\<close> gives one more than the length of the text, and every call but the
  first has read a character before it.
\<close>

fun scan_once :: "nat \<Rightarrow> string \<Rightarrow> (json \<times> string) option"
  and scan_items :: "nat \<Rightarrow> string \<Rightarrow> (json list \<times> string) option"
  and scan_pairs :: "nat \<Rightarrow> string \<Rightarrow> ((string \<times> json) list \<times> string) option"
where
  "scan_once 0 s = None"
| "scan_once (Suc n) s =
     (case s of
        [] \<Rightarrow> None
      | c # cs \<Rightarrow>
          if c = CHR 0x22 then
            (case scanstring cs of None \<Rightarrow> None | Some (x, rest) \<Rightarrow> Some (JStr x, rest))
          else if c = CHR ''{'' then
            (case skip_ws cs of
               [] \<Rightarrow> None
             | d # rest \<Rightarrow>
                 if d = CHR ''}'' then Some (JObj [], rest)
                 else (case scan_pairs n (d # rest) of
                         None \<Rightarrow> None
                       | Some (pairs, rest') \<Rightarrow> Some (JObj (dict_of_pairs pairs), rest')))
          else if c = CHR ''['' then
            (case skip_ws cs of
               [] \<Rightarrow> None
             | d # rest \<Rightarrow>
                 if d = CHR '']'' then Some (JArr [], rest)
                 else (case scan_items n (d # rest) of
                         None \<Rightarrow> None
                       | Some (items, rest') \<Rightarrow> Some (JArr items, rest')))
          else if prefix ''null'' s then Some (JNull, drop 4 s)
          else if prefix ''true'' s then Some (JBool True, drop 4 s)
          else if prefix ''false'' s then Some (JBool False, drop 5 s)
          else (case scan_number s of None \<Rightarrow> None | Some (i, rest) \<Rightarrow> Some (JInt i, rest)))"
| "scan_items 0 s = None"
| "scan_items (Suc n) s =
     (case scan_once n s of
        None \<Rightarrow> None
      | Some (v, rest) \<Rightarrow>
          (case skip_ws rest of
             [] \<Rightarrow> None
           | d # rest' \<Rightarrow>
               if d = CHR '']'' then Some ([v], rest')
               else if d = CHR '','' then
                 (case scan_items n (skip_ws rest') of
                    None \<Rightarrow> None
                  | Some (vs, rest'') \<Rightarrow> Some (v # vs, rest''))
               else None))"
| "scan_pairs 0 s = None"
| "scan_pairs (Suc n) s =
     (case s of
        [] \<Rightarrow> None
      | q # cs \<Rightarrow>
          if q \<noteq> CHR 0x22 then None
          else (case scanstring cs of
                  None \<Rightarrow> None
                | Some (key, rest) \<Rightarrow>
                    (case skip_ws rest of
                       [] \<Rightarrow> None
                     | colon # rest1 \<Rightarrow>
                         if colon \<noteq> CHR '':'' then None
                         else (case scan_once n (skip_ws rest1) of
                                 None \<Rightarrow> None
                               | Some (v, rest2) \<Rightarrow>
                                   (case skip_ws rest2 of
                                      [] \<Rightarrow> None
                                    | d # rest3 \<Rightarrow>
                                        if d = CHR ''}'' then Some ([(key, v)], rest3)
                                        else if d = CHR '','' then
                                          (case scan_pairs n (skip_ws rest3) of
                                             None \<Rightarrow> None
                                           | Some (kvs, rest4) \<Rightarrow>
                                               Some ((key, v) # kvs, rest4))
                                        else None)))))"

definition loads :: "string \<Rightarrow> json option" where
  "loads s =
     (case scan_once (Suc (length s)) (skip_ws s) of
        None \<Rightarrow> None
      | Some (v, rest) \<Rightarrow> if skip_ws rest = [] then Some v else None)"

subsection \<open>Re-reading the export\<close>

text \<open>
  The fields of a ranked post read from a parsed dictionary by their keys: \<open>null\<close> is
  \<open>None\<close>, and the five fields that are never \<open>None\<close> must be present.
\<close>

definition get_str :: "(string, json) dict \<Rightarrow> string \<Rightarrow> string option" where
  "get_str d k = (case map_of d k of Some (JStr s) \<Rightarrow> Some s | _ \<Rightarrow> None)"

definition get_int :: "(string, json) dict \<Rightarrow> string \<Rightarrow> int option" where
  "get_int d k = (case map_of d k of Some (JInt i) \<Rightarrow> Some i | _ \<Rightarrow> None)"

definition get_strs :: "(string, json) dict \<Rightarrow> string \<Rightarrow> string list" where
  "get_strs d k =
     (case map_of d k of
        Some (JArr items) \<Rightarrow> concat (map (\<lambda>v. case v of JStr s \<Rightarrow> [s] | _ \<Rightarrow> []) items)
      | _ \<Rightarrow> [])"

definition post_of_dict :: "(string, json) dict \<Rightarrow> TopPost option" where
  "post_of_dict d =
     (case (get_str d ''channel_title'', get_int d ''message_id'',
            get_str d ''post_datetime'', get_int d ''latest_reactions'',
            get_int d ''reactions_growth'') of
        (Some title, Some mid, Some dt, Some latest, Some growth) \<Rightarrow>
          Some \<lparr>channel_title = title,
                channel_username = get_str d ''channel_username'',
                message_id = mid,
                post_url = get_str d ''post_url'',
                post_datetime = dt,
                message_text = get_str d ''message_text'',
                latest_reactions = latest,
                reactions_growth = growth,
                latest_views = get_int d ''latest_views'',
                latest_forwards = get_int d ''latest_forwards'',
                github_links = get_strs d ''github_links'',
                research_links = get_strs d ''research_links'',
                article_links = get_strs d ''article_links''\<rparr>
      | _ \<Rightarrow> None)"

fun posts_of_items :: "json list \<Rightarrow> TopPost list option" where
  "posts_of_items [] = Some []"
| "posts_of_items (JObj d # items) =
     (case post_of_dict d of
        None \<Rightarrow> None
      | Some p \<Rightarrow> map_option ((#) p) (posts_of_items items))"
| "posts_of_items (v # items) = None"

definition read_export :: "string \<Rightarrow> TopPost list option" where
  "read_export s = (case loads s of Some (JArr items) \<Rightarrow> posts_of_items items | _ \<Rightarrow> None)"

text \<open>
  The values that stand for Python values: the keys of a dictionary are distinct.
\<close>

fun distinct_keys :: "json \<Rightarrow> bool" where
  "distinct_keys (JArr items) = list_all distinct_keys items"
| "distinct_keys (JObj members) =
     (distinct (map fst members) \<and> list_all (\<lambda>kv. distinct_keys (snd kv)) members)"
| "distinct_keys v = True"

text \<open>What may follow a value in the text: nothing, a comma or a newline.\<close>

definition delimiter :: "string \<Rightarrow> bool" where
  "delimiter rest = (case rest of [] \<Rightarrow> True | c # cs \<Rightarrow> c = CHR '','' \<or> c = CHR 0x0A)"


section \<open>Concrete inputs\<close>

text \<open>Messages and stores on which the properties below are evaluated.\<close>

definition blank_message :: message where
  "blank_message =
     \<lparr>msg_id = 1, msg_date = None, msg_message = None, msg_entities = None,
      msg_reactions = None, msg_views = None, msg_forwards = None\<rparr>"

definition two_unknown_items :: "reaction_count list" where
  "two_unknown_items =
     [\<lparr>reaction = None, count_attr = Some 3\<rparr>, \<lparr>reaction = None, count_attr = Some 5\<rparr>]"

definition two_unknown_message :: message where
  "two_unknown_message =
     blank_message\<lparr>msg_reactions := Some \<lparr>results = Some two_unknown_items\<rparr>\<rparr>"

definition custom_item :: reaction_count where
  "custom_item =
     \<lparr>reaction = Some \<lparr>emoticon = None, document_id = Some 77,
                          str_repr = ''ReactionCustomEmoji(document_id=77)''\<rparr>,
      count_attr = Some 2\<rparr>"

definition thumbs_item :: reaction_count where
  "thumbs_item =
     \<lparr>reaction = Some \<lparr>emoticon = Some ''+1'', document_id = None,
                          str_repr = ''ReactionEmoji(emoticon=+1)''\<rparr>,
      count_attr = Some 9\<rparr>"

definition custom_items :: "reaction_count list" where
  "custom_items = [thumbs_item, custom_item, \<lparr>reaction = None, count_attr = Some 3\<rparr>]"

definition custom_message :: message where
  "custom_message = blank_message\<lparr>msg_reactions := Some \<lparr>results = Some custom_items\<rparr>\<rparr>"

text \<open>
  Two reaction objects that are neither an emoji nor a custom emoji with a document id:
  a paid reaction, and a custom emoji whose document id is 0.
\<close>

definition paid_item :: reaction_count where
  "paid_item =
     \<lparr>reaction = Some \<lparr>emoticon = None, document_id = None, str_repr = ''ReactionPaid()''\<rparr>,
      count_attr = Some 4\<rparr>"

definition zero_custom_item :: reaction_count where
  "zero_custom_item =
     \<lparr>reaction = Some \<lparr>emoticon = None, document_id = Some 0,
                          str_repr = ''ReactionCustomEmoji(document_id=0)''\<rparr>,
      count_attr = Some 1\<rparr>"

definition paid_message :: message where
  "paid_message =
     blank_message\<lparr>msg_reactions := Some \<lparr>results = Some [paid_item, zero_custom_item]\<rparr>\<rparr>"
text \<open>A store with one post that has a github link and one snapshot, of day 100.\<close>

definition github_post :: post_row where
  "github_post =
     \<lparr>p_id = 1, p_channel_id = 7, p_channel_username = Some ''chan'',
      p_channel_title = ''Chan'', p_message_id = 42,
      p_post_url = Some ''https://t.me/chan/42'',
      p_post_datetime = ''2024-01-02T03:04:05+00:00'', p_message_text = None,
      p_views = None, p_forwards = None\<rparr>"

definition github_db :: db where
  "github_db =
     \<lparr>posts = [github_post],
      links = [\<lparr>l_id = 1, l_post_id = 1, l_url = ''https://github.com/org/repo'',
                l_link_type = ''github''\<rparr>],
      snapshots = [\<lparr>s_id = 1, s_post_id = 1, s_snapshot_date = 100, s_total_reactions = 5,
                    s_reactions_json = ''{}'', s_views = None, s_forwards = None\<rparr>],
      seq_posts = 1, seq_links = 1, seq_snapshots = 1\<rparr>"
text \<open>
  A store with two posts that have the same reactions on day 100 and differ in their
  timestamps; each has a github link.
\<close>

definition tie_db :: db where
  "tie_db =
     \<lparr>posts = [github_post,
               github_post\<lparr>p_id := 2, p_message_id := 43,
                           p_post_datetime := ''2024-01-03T00:00:00+00:00''\<rparr>],
      links = [\<lparr>l_id = 1, l_post_id = 1, l_url = ''https://github.com/org/repo'',
                l_link_type = ''github''\<rparr>,
               \<lparr>l_id = 2, l_post_id = 2, l_url = ''https://github.com/org/other'',
                l_link_type = ''github''\<rparr>],
      snapshots = [\<lparr>s_id = 1, s_post_id = 1, s_snapshot_date = 100, s_total_reactions = 5,
                    s_reactions_json = ''{}'', s_views = None, s_forwards = None\<rparr>,
                   \<lparr>s_id = 2, s_post_id = 2, s_snapshot_date = 100, s_total_reactions = 5,
                    s_reactions_json = ''{}'', s_views = None, s_forwards = None\<rparr>],
      seq_posts = 2, seq_links = 2, seq_snapshots = 2\<rparr>"
text \<open>
  A run at noon of day 10 over two channels. In \<open>yesterday_client\<close> each channel has one
  message, of 18:00 on day 9. In \<open>raising_client\<close> the stream of the first channel raises;
  in \<open>bracket_client\<close> its message has the text \<open>http://[\<close>.
\<close>

definition accept_bracketed :: "string \<Rightarrow> bool" where
  "accept_bracketed host = True"

definition noon_day_10 :: int where
  "noon_day_10 = 10 * microseconds_per_day + 43200000000"

definition evening_day_9 :: datetime where
  "evening_day_9 = \<lparr>wall = 9 * microseconds_per_day + 64800000000, utcoffset = None\<rparr>"

definition two_channels :: Settings where
  "two_channels = \<lparr>settings_channels = [''@chan_a'', ''chan_b''], settings_lookback_days = 7\<rparr>"

definition entity_a :: channel_entity where
  "entity_a = \<lparr>e_title = Some ''Channel A'', e_username = Some ''chan_a'', e_id = 7\<rparr>"

definition entity_b :: channel_entity where
  "entity_b = \<lparr>e_title = Some ''Channel B'', e_username = Some ''chan_b'', e_id = 8\<rparr>"

definition resolve_two :: "string \<Rightarrow> get_entity_result" where
  "resolve_two channel =
     (if channel = ''chan_a'' then Resolved entity_a
      else if channel = ''chan_b'' then Resolved entity_b
      else ChannelUnavailable)"

definition yesterday_message :: message where
  "yesterday_message = blank_message\<lparr>msg_id := 5, msg_date := Some evening_day_9\<rparr>"

definition bracket_message :: message where
  "bracket_message = yesterday_message\<lparr>msg_message := Some ''http://[''\<rparr>"






definition raising_stream :: "channel_entity \<Rightarrow> stream_item list" where
  "raising_stream e = (if e_id e = 7 then [Raises] else [Yields yesterday_message])"

definition bracket_stream :: "channel_entity \<Rightarrow> stream_item list" where
  "bracket_stream e =
     (if e_id e = 7 then [Yields bracket_message] else [Yields yesterday_message])"


definition raising_client :: client where
  "raising_client = \<lparr>get_entity = resolve_two, iter_messages = raising_stream\<rparr>"

definition bracket_client :: client where
  "bracket_client = \<lparr>get_entity = resolve_two, iter_messages = bracket_stream\<rparr>"
text \<open>A message with two links in its text and two reaction entries.\<close>

definition linked_message :: message where
  "linked_message =
     yesterday_message
       \<lparr>msg_message := Some ''see https://github.com/org/repo, and https://arxiv.org/abs/1234.'',
        msg_reactions := Some \<lparr>results = Some two_unknown_items\<rparr>\<rparr>"

text \<open>
  A ranked post whose title has a quote, a backslash, a character above 127, a newline, a
  tab and a control character, and the text that \<open>json.dumps\<close> prints for the list of
  two such posts, line by line.
\<close>

definition sample_post :: TopPost where
  "sample_post =
     \<lparr>channel_title = ''ML '' @ [CHR 0x22] @ ''Daily'' @ [CHR 0x22, CHR 0x5C] @ '' ''
                        @ [CHR 0xE9, CHR 0x0A, CHR 0x09, CHR 0x01],
      channel_username = None,
      message_id = 42,
      post_url = Some ''https://t.me/chan/42'',
      post_datetime = ''2024-01-02T03:04:05+00:00'',
      message_text = Some [],
      latest_reactions = 12,
      reactions_growth = - 3,
      latest_views = Some 0,
      latest_forwards = None,
      github_links = [''https://github.com/org/repo''],
      research_links = [],
      article_links = [''https://a.example/x'', ''https://b.example/y'']\<rparr>"

definition sample_export :: string where
  "sample_export =
     join [CHR 0x0A]
     [''['',
      ''  {'',
      ''    '' @ [CHR 0x22] @ ''channel_title'' @ [CHR 0x22] @ '': '' @ [CHR 0x22] @ ''ML ''
        @ [CHR 0x5C, CHR 0x22] @ ''Daily'' @ [CHR 0x5C, CHR 0x22, CHR 0x5C, CHR 0x5C] @ '' ''
        @ [CHR 0xE9, CHR 0x5C] @ ''n'' @ [CHR 0x5C] @ ''t'' @ [CHR 0x5C] @ ''u0001''
        @ [CHR 0x22] @ '','',
      ''    '' @ [CHR 0x22] @ ''channel_username'' @ [CHR 0x22] @ '': null,'',
      ''    '' @ [CHR 0x22] @ ''message_id'' @ [CHR 0x22] @ '': 42,'',
      ''    '' @ [CHR 0x22] @ ''post_url'' @ [CHR 0x22] @ '': '' @ [CHR 0x22]
        @ ''https://t.me/chan/42'' @ [CHR 0x22] @ '','',
      ''    '' @ [CHR 0x22] @ ''post_datetime'' @ [CHR 0x22] @ '': '' @ [CHR 0x22]
        @ ''2024-01-02T03:04:05+00:00'' @ [CHR 0x22] @ '','',
      ''    '' @ [CHR 0x22] @ ''message_text'' @ [CHR 0x22] @ '': '' @ [CHR 0x22, CHR 0x22]
        @ '','',
      ''    '' @ [CHR 0x22] @ ''latest_reactions'' @ [CHR 0x22] @ '': 12,'',
      ''    '' @ [CHR 0x22] @ ''reactions_growth'' @ [CHR 0x22] @ '': -3,'',
      ''    '' @ [CHR 0x22] @ ''latest_views'' @ [CHR 0x22] @ '': 0,'',
      ''    '' @ [CHR 0x22] @ ''latest_forwards'' @ [CHR 0x22] @ '': null,'',
      ''    '' @ [CHR 0x22] @ ''github_links'' @ [CHR 0x22] @ '': ['',
      ''      '' @ [CHR 0x22] @ ''https://github.com/org/repo'' @ [CHR 0x22],
      ''    ],'',
      ''    '' @ [CHR 0x22] @ ''research_links'' @ [CHR 0x22] @ '': [],'',
      ''    '' @ [CHR 0x22] @ ''article_links'' @ [CHR 0x22] @ '': ['',
      ''      '' @ [CHR 0x22] @ ''https://a.example/x'' @ [CHR 0x22] @ '','',
      ''      '' @ [CHR 0x22] @ ''https://b.example/y'' @ [CHR 0x22],
      ''    ]'',
      ''  },'',
      ''  {'',
      ''    '' @ [CHR 0x22] @ ''channel_title'' @ [CHR 0x22] @ '': '' @ [CHR 0x22] @ ''ML ''
        @ [CHR 0x5C, CHR 0x22] @ ''Daily'' @ [CHR 0x5C, CHR 0x22, CHR 0x5C, CHR 0x5C] @ '' ''
        @ [CHR 0xE9, CHR 0x5C] @ ''n'' @ [CHR 0x5C] @ ''t'' @ [CHR 0x5C] @ ''u0001''
        @ [CHR 0x22] @ '','',
      ''    '' @ [CHR 0x22] @ ''channel_username'' @ [CHR 0x22] @ '': null,'',
      ''    '' @ [CHR 0x22] @ ''message_id'' @ [CHR 0x22] @ '': 42,'',
      ''    '' @ [CHR 0x22] @ ''post_url'' @ [CHR 0x22] @ '': '' @ [CHR 0x22]
        @ ''https://t.me/chan/42'' @ [CHR 0x22] @ '','',
      ''    '' @ [CHR 0x22] @ ''post_datetime'' @ [CHR 0x22] @ '': '' @ [CHR 0x22]
        @ ''2024-01-02T03:04:05+00:00'' @ [CHR 0x22] @ '','',
      ''    '' @ [CHR 0x22] @ ''message_text'' @ [CHR 0x22] @ '': '' @ [CHR 0x22, CHR 0x22]
        @ '','',
      ''    '' @ [CHR 0x22] @ ''latest_reactions'' @ [CHR 0x22] @ '': 12,'',
      ''    '' @ [CHR 0x22] @ ''reactions_growth'' @ [CHR 0x22] @ '': -3,'',
      ''    '' @ [CHR 0x22] @ ''latest_views'' @ [CHR 0x22] @ '': 0,'',
      ''    '' @ [CHR 0x22] @ ''latest_forwards'' @ [CHR 0x22] @ '': null,'',
      ''    '' @ [CHR 0x22] @ ''github_links'' @ [CHR 0x22] @ '': ['',
      ''      '' @ [CHR 0x22] @ ''https://github.com/org/repo'' @ [CHR 0x22],
      ''    ],'',
      ''    '' @ [CHR 0x22] @ ''research_links'' @ [CHR 0x22] @ '': [],'',
      ''    '' @ [CHR 0x22] @ ''article_links'' @ [CHR 0x22] @ '': ['',
      ''      '' @ [CHR 0x22] @ ''https://a.example/x'' @ [CHR 0x22] @ '','',
      ''      '' @ [CHR 0x22] @ ''https://b.example/y'' @ [CHR 0x22],
      ''    ]'',
      ''  }'',
      '']'']"


section \<open>Properties of reaction extraction\<close>

lemma map_of_collect_reactions:
  "map_of (collect_reactions d items) k =
     (case filter (\<lambda>i. reaction_key i = k) items of
        [] \<Rightarrow> map_of d k
      | i # is \<Rightarrow> Some (reaction_value (last (i # is))))"
proof (induction items arbitrary: d)
  case Nil
  then show ?case by simp
next
  case (Cons item items)
  show ?case
    by (simp add: Cons.IH update_conv' split: list.splits)
qed

lemma distinct_collect_reactions:
  "distinct (map fst d) \<Longrightarrow> distinct (map fst (collect_reactions d items))"
  by (induction items arbitrary: d) (simp_all add: distinct_update)

lemma keys_collect_reactions:
  "fst ` set (collect_reactions d items) = fst ` set d \<union> reaction_key ` set items"
  by (induction items arbitrary: d) (auto simp: dom_update)

lemma extract_reactions_collect:
  "msg_reactions m = Some rs \<Longrightarrow> results rs = Some items \<Longrightarrow>
   extract_reactions m = collect_reactions [] items"
  by (cases items) (simp_all add: extract_reactions_def)

lemma distinct_extract_reactions: "distinct (map fst (extract_reactions m))"
  by (auto simp: extract_reactions_def distinct_collect_reactions
           split: option.splits list.splits)

lemma sum_list_distinct_dict:
  "distinct (map fst d) \<Longrightarrow>
   sum_list (map snd d) = (\<Sum>k \<in> fst ` set d. the (map_of d k))"
proof (induction d)
  case Nil
  then show ?case by simp
next
  case (Cons kv d)
  obtain k v where kv: "kv = (k, v)" by (cases kv)
  from Cons.prems kv have notin: "k \<notin> fst ` set d" and dist: "distinct (map fst d)"
    by auto
  have "(\<Sum>k' \<in> fst ` set d. the (map_of (kv # d) k')) = (\<Sum>k' \<in> fst ` set d. the (map_of d k'))"
    using notin by (intro sum.cong) (auto simp: kv)
  then show ?case
    using notin Cons.IH [OF dist] by (simp add: kv)
qed

lemma map_of_collect_reactions_rev:
  "map_of (collect_reactions d items)
     = map_of (rev (map (\<lambda>i. (reaction_key i, reaction_value i)) items) @ d)"
proof (induction items arbitrary: d)
  case Nil
  show ?case by simp
next
  case (Cons item items)
  show ?case
    by (simp add: Cons.IH map_of_append update_conv')
qed

text \<open>
  Claim C7, amended. Reaction extraction yields a mapping from reaction kind to count: a
  message whose reactions are missing or empty yields the empty mapping; otherwise the
  mapping has one key for each kind in the reaction list and holds for a kind the count
  of the last entry of that kind. The key of an entry is the emoji of an emoji reaction,
  \<open>custom_<id>\<close> for a reaction without emoji that carries the non-zero document id
  \<open>id\<close>, the text \<open>str(reaction)\<close> of a reaction object that has neither (a paid
  reaction, or a document id of 0), and \<open>unknown\<close> only when the entry carries no
  reaction object; its count is the \<open>count\<close> of the entry, 0 when it has none. The total
  is the sum of the values of the mapping, one value per key.
\<close>

theorem extract_reactions_mapping:
  "((msg_reactions m = None \<or> msg_reactions m = Some \<lparr>results = None\<rparr>
      \<or> msg_reactions m = Some \<lparr>results = Some []\<rparr>) \<longrightarrow> extract_reactions m = [])
   \<and> (msg_reactions m = Some \<lparr>results = Some items\<rparr> \<longrightarrow>
        map_of (extract_reactions m)
          = map_of (rev (map (\<lambda>i. (reaction_key i, reaction_value i)) items))
        \<and> fst ` set (extract_reactions m) = reaction_key ` set items
        \<and> distinct (map fst (extract_reactions m)))
   \<and> (reaction item = None \<longrightarrow> reaction_key item = ''unknown'')
   \<and> (\<forall>r e. reaction item = Some r \<and> emoticon r = Some e \<and> e \<noteq> []
          \<longrightarrow> reaction_key item = e)
   \<and> (\<forall>r d. reaction item = Some r \<and> (emoticon r = None \<or> emoticon r = Some [])
              \<and> document_id r = Some d \<and> d \<noteq> 0
          \<longrightarrow> reaction_key item = ''custom_'' @ str_int d)
   \<and> (\<forall>r. reaction item = Some r \<and> (emoticon r = None \<or> emoticon r = Some [])
            \<and> (document_id r = None \<or> document_id r = Some 0)
          \<longrightarrow> reaction_key item = str_repr r)
   \<and> (\<forall>c. count_attr item = Some c \<longrightarrow> reaction_value item = c)
   \<and> (count_attr item = None \<longrightarrow> reaction_value item = 0)
   \<and> total_reactions (extract_reactions m)
       = (\<Sum>k \<in> fst ` set (extract_reactions m). the (map_of (extract_reactions m) k))"
proof (intro conjI impI)
  assume "msg_reactions m = None \<or> msg_reactions m = Some \<lparr>results = None\<rparr>
      \<or> msg_reactions m = Some \<lparr>results = Some []\<rparr>"
  then show "extract_reactions m = []"
    by (auto simp: extract_reactions_def)
next
  assume a: "msg_reactions m = Some \<lparr>results = Some items\<rparr>"
  then have e: "extract_reactions m = collect_reactions [] items"
    by (simp add: extract_reactions_collect)
  show "map_of (extract_reactions m)
          = map_of (rev (map (\<lambda>i. (reaction_key i, reaction_value i)) items))"
    unfolding e map_of_collect_reactions_rev by simp
  show "fst ` set (extract_reactions m) = reaction_key ` set items"
    unfolding e by (simp add: keys_collect_reactions)
  show "distinct (map fst (extract_reactions m))"
    by (rule distinct_extract_reactions)
next
  assume "reaction item = None"
  then show "reaction_key item = ''unknown''"
    by (simp add: reaction_key_def)
next
  show "\<forall>r e. reaction item = Some r \<and> emoticon r = Some e \<and> e \<noteq> []
          \<longrightarrow> reaction_key item = e"
    by (auto simp: reaction_key_def)
next
  show "\<forall>r d. reaction item = Some r \<and> (emoticon r = None \<or> emoticon r = Some [])
                  \<and> document_id r = Some d \<and> d \<noteq> 0
              \<longrightarrow> reaction_key item = ''custom_'' @ str_int d"
    by (auto simp: reaction_key_def)
next
  show "\<forall>r. reaction item = Some r \<and> (emoticon r = None \<or> emoticon r = Some [])
            \<and> (document_id r = None \<or> document_id r = Some 0)
          \<longrightarrow> reaction_key item = str_repr r"
    by (auto simp: reaction_key_def)
next
  show "\<forall>c. count_attr item = Some c \<longrightarrow> reaction_value item = c"
    by (simp add: reaction_value_def)
next
  assume "count_attr item = None"
  then show "reaction_value item = 0"
    by (simp add: reaction_value_def)
next
  show "total_reactions (extract_reactions m)
       = (\<Sum>k \<in> fst ` set (extract_reactions m). the (map_of (extract_reactions m) k))"
    unfolding total_reactions_def
    by (rule sum_list_distinct_dict) (rule distinct_extract_reactions)
qed

theorem extract_reactions_mapping_witness:
  "extract_reactions blank_message = []
   \<and> reaction_key thumbs_item = ''+1''
   \<and> reaction_key custom_item = ''custom_77''
   \<and> reaction_key (\<lparr>reaction = None, count_attr = Some 3\<rparr>) = ''unknown''
   \<and> fst ` set (extract_reactions custom_message) = {''+1'', ''custom_77'', ''unknown''}
   \<and> map_of (extract_reactions custom_message) ''+1'' = Some 9
   \<and> map_of (extract_reactions custom_message) ''custom_77'' = Some 2
   \<and> map_of (extract_reactions custom_message) ''unknown'' = Some 3
   \<and> extract_reactions custom_message = [(''+1'', 9), (''custom_77'', 2), (''unknown'', 3)]
   \<and> total_reactions (extract_reactions custom_message) = 14"
proof -
  have h0: "msg_reactions blank_message = None"
    by (simp add: blank_message_def)
  have h1: "msg_reactions custom_message = Some \<lparr>results = Some custom_items\<rparr>"
    by (simp add: custom_message_def)
  have h2: "reaction custom_item
              = Some \<lparr>emoticon = None, document_id = Some 77,
                      str_repr = ''ReactionCustomEmoji(document_id=77)''\<rparr>"
    by (simp add: custom_item_def)
  have h3: "reaction thumbs_item
              = Some \<lparr>emoticon = Some ''+1'', document_id = None,
                      str_repr = ''ReactionEmoji(emoticon=+1)''\<rparr>"
    by (simp add: thumbs_item_def)
  have s: "str_int 77 = ''77''"
    by code_simp
  from extract_reactions_mapping [of blank_message "[]" custom_item] h0
  have a: "extract_reactions blank_message = []"
    by simp
  note T = extract_reactions_mapping [of custom_message custom_items thumbs_item]
  note U = extract_reactions_mapping [of custom_message custom_items custom_item]
  note V = extract_reactions_mapping [of custom_message custom_items
      "\<lparr>reaction = None, count_attr = Some 3\<rparr>"]
  from T have "\<forall>r e. reaction thumbs_item = Some r \<and> emoticon r = Some e \<and> e \<noteq> []
          \<longrightarrow> reaction_key thumbs_item = e"
    by blast
  from this [rule_format, of "\<lparr>emoticon = Some ''+1'', document_id = None,
                      str_repr = ''ReactionEmoji(emoticon=+1)''\<rparr>" "''+1''"] h3
  have k1: "reaction_key thumbs_item = ''+1''"
    by simp
  from U have "\<forall>r d. reaction custom_item = Some r \<and> (emoticon r = None \<or> emoticon r = Some [])
                  \<and> document_id r = Some d \<and> d \<noteq> 0
              \<longrightarrow> reaction_key custom_item = ''custom_'' @ str_int d"
    by blast
  from this [rule_format, of "\<lparr>emoticon = None, document_id = Some 77,
                      str_repr = ''ReactionCustomEmoji(document_id=77)''\<rparr>" 77] h2
  have k2: "reaction_key custom_item = ''custom_77''"
    by (simp add: s)
  from V have k3: "reaction_key \<lparr>reaction = None, count_attr = Some 3\<rparr> = ''unknown''"
    by simp
  have v1: "reaction_value thumbs_item = 9"
    using T by (simp add: thumbs_item_def)
  have v2: "reaction_value custom_item = 2"
    using U by (simp add: custom_item_def)
  have v3: "reaction_value \<lparr>reaction = None, count_attr = Some 3\<rparr> = 3"
    using V by simp
  from T h1 have m: "map_of (extract_reactions custom_message)
          = map_of (rev (map (\<lambda>i. (reaction_key i, reaction_value i)) custom_items))"
    and keys: "fst ` set (extract_reactions custom_message) = reaction_key ` set custom_items"
    by blast+
  have m1: "map_of (extract_reactions custom_message) ''+1'' = Some 9"
    unfolding m by (simp add: custom_items_def k1 k2 k3 v1 v2 v3)
  have m2: "map_of (extract_reactions custom_message) ''custom_77'' = Some 2"
    unfolding m by (simp add: custom_items_def k1 k2 k3 v1 v2 v3)
  have m3: "map_of (extract_reactions custom_message) ''unknown'' = Some 3"
    unfolding m by (simp add: custom_items_def k1 k2 k3 v1 v2 v3)
  have ks: "fst ` set (extract_reactions custom_message) = {''+1'', ''custom_77'', ''unknown''}"
    unfolding keys by (simp add: custom_items_def k1 k2 k3)
  have e: "extract_reactions custom_message
             = [(''+1'', 9), (''custom_77'', 2), (''unknown'', 3)]"
    by (simp add: extract_reactions_def custom_message_def custom_items_def custom_item_def
        thumbs_item_def blank_message_def reaction_key_def reaction_value_def s)
  have t: "total_reactions (extract_reactions custom_message) = 14"
    by (simp add: e total_reactions_def)
  from a k1 k2 k3 ks m1 m2 m3 e t show ?thesis
    by simp
qed

theorem extract_reactions_mapping_counterexample:
  "reaction_key paid_item = ''ReactionPaid()''
   \<and> reaction_key zero_custom_item = ''ReactionCustomEmoji(document_id=0)''
   \<and> extract_reactions paid_message
       = [(''ReactionPaid()'', 4), (''ReactionCustomEmoji(document_id=0)'', 1)]
   \<and> map_of (extract_reactions paid_message) ''unknown'' = None
   \<and> map_of (extract_reactions paid_message) ''custom_0'' = None"
  by (simp add: extract_reactions_def paid_message_def paid_item_def zero_custom_item_def
      blank_message_def reaction_key_def reaction_value_def)

text \<open>
  Claim C10. When several entries of a message's reaction list have the same key, the
  mapping holds the count of the last of them: counts under one key are overwritten, not
  added. On the message with two entries without reaction object, of counts 3 and 5, the
  mapping is \<open>{unknown: 5}\<close> and the total is 5, less than the sum 8 of the counts.
\<close>

theorem extract_reactions_last_wins:
  "(msg_reactions m = Some \<lparr>results = Some items\<rparr> \<longrightarrow>
      map_of (extract_reactions m) k =
        (case filter (\<lambda>i. reaction_key i = k) items of
           [] \<Rightarrow> None
         | i # is \<Rightarrow> Some (reaction_value (last (i # is)))))
   \<and> extract_reactions two_unknown_message = [(''unknown'', 5)]
   \<and> total_reactions (extract_reactions two_unknown_message) = 5
   \<and> sum_list (map reaction_value two_unknown_items) = 8"
proof (intro conjI impI)
  assume "msg_reactions m = Some \<lparr>results = Some items\<rparr>"
  then have "extract_reactions m = collect_reactions [] items"
    by (simp add: extract_reactions_collect)
  then show "map_of (extract_reactions m) k =
        (case filter (\<lambda>i. reaction_key i = k) items of
           [] \<Rightarrow> None
         | i # is \<Rightarrow> Some (reaction_value (last (i # is))))"
    by (simp add: map_of_collect_reactions split: list.splits)
next
  show e: "extract_reactions two_unknown_message = [(''unknown'', 5)]"
    by (simp add: extract_reactions_def two_unknown_message_def two_unknown_items_def
        blank_message_def reaction_key_def reaction_value_def)
  show "total_reactions (extract_reactions two_unknown_message) = 5"
    by (simp add: e total_reactions_def)
  show "sum_list (map reaction_value two_unknown_items) = 8"
    by (simp add: two_unknown_items_def reaction_value_def)
qed

theorem extract_reactions_last_wins_witness:
  "map_of (extract_reactions two_unknown_message) ''unknown'' = Some 5
   \<and> map_of (extract_reactions two_unknown_message) ''custom_1'' = None"
proof -
  have h: "msg_reactions two_unknown_message = Some \<lparr>results = Some two_unknown_items\<rparr>"
    by (simp add: two_unknown_message_def blank_message_def)
  from extract_reactions_last_wins [of two_unknown_message two_unknown_items "''unknown''"] h
  have a: "map_of (extract_reactions two_unknown_message) ''unknown'' = Some 5"
    by (simp add: two_unknown_items_def reaction_key_def reaction_value_def)
  from extract_reactions_last_wins [of two_unknown_message two_unknown_items "''custom_1''"] h
  have b: "map_of (extract_reactions two_unknown_message) ''custom_1'' = None"
    by (simp add: two_unknown_items_def reaction_key_def reaction_value_def)
  from a b show ?thesis by simp
qed

section \<open>Properties of link classification\<close>

lemma host_matches_iff:
  "host_matches host sfx \<longleftrightarrow> host = sfx \<or> (\<exists>sub. host = sub @ ''.'' @ sfx)"
  by (auto simp: host_matches_def suffix_def)

text \<open>
  Whenever \<open>urlparse\<close> returns, the category follows the precedence github, telegram,
  research, article, other on the lower-cased network location.
\<close>

lemma classify_link_precedence:
  "urlparse_netloc chk url = Inr netloc \<Longrightarrow> host = lower netloc \<Longrightarrow>
   classify_link chk url =
     Inr (if sublist ''github.com'' host then ''github''
          else if \<exists>sfx \<in> set TELEGRAM_HOST_SUFFIXES. host = sfx \<or> (\<exists>sub. host = sub @ ''.'' @ sfx)
            then ''telegram''
          else if \<exists>sfx \<in> set RESEARCH_HOST_SUFFIXES. host = sfx \<or> (\<exists>sub. host = sub @ ''.'' @ sfx)
            then ''research''
          else if host \<noteq> [] then ''article''
          else ''other'')"
  by (simp add: classify_link_def classify_host_def list_ex_iff host_matches_iff)

lemma classify_link_one_category:
  "classify_link chk url = Inr c \<Longrightarrow>
   c \<in> {''github'', ''telegram'', ''research'', ''article'', ''other''}"
  by (auto simp: classify_link_def classify_host_def split: sum.splits if_splits)

lemma classify_link_literal_cases:
  "classify_link chk ''https://github.com/org/repo'' = Inr ''github''"
  "classify_link chk ''https://arxiv.org/abs/1234'' = Inr ''research''"
  "classify_link chk ''https://t.me/mychannel/42'' = Inr ''telegram''"
  "classify_link chk ''https://example.com/post'' = Inr ''article''"
  "classify_link chk ''not a url'' = Inr ''other''"
  by (simp_all add: classify_link_def urlparse_netloc_def lstrip_def c0_control_or_space_def
      split_scheme_def isalpha_ascii_def scheme_char_def classify_host_def lower_def
      lower_char_def TELEGRAM_HOST_SUFFIXES_def RESEARCH_HOST_SUFFIXES_def host_matches_def
      suffix_to_prefix sublist_code)

text \<open>
  Claim C6. Classification is claimed to assign a category to every URL string, \<open>other\<close>
  to a string without parseable host. The URL \<open>http://[\<close>, which URL discovery extracts
  from a message text as it stands, has an unmatched bracket in its network location:
  \<open>urlparse\<close> raises \<open>ValueError\<close>, \<open>classify_link\<close> does not catch it, and no category is
  assigned.
\<close>

theorem classify_link_unmatched_bracket:
  "classify_link chk ''http://['' = Inl ValueError
   \<and> extract_urls (blank_message\<lparr>msg_message := Some ''http://[''\<rparr>) = [''http://['']"
  by (simp add: classify_link_def urlparse_netloc_def lstrip_def c0_control_or_space_def
      split_scheme_def isalpha_ascii_def scheme_char_def extract_urls_def findall_def
      url_match_def url_char_def isspace_def rstrip_def trailing_punct_def entity_urls_def
      blank_message_def)

section \<open>Properties of the ranking engine\<close>

subsection \<open>The loop over the candidates\<close>

lemma collect_posts_Cons:
  "collect_posts conn limit e r g result (row # rows) =
     (if \<not> row_passes conn e r g row then collect_posts conn limit e r g result rows
      else if limit \<le> int (length result) + 1 then result @ [top_post_of conn row]
      else collect_posts conn limit e r g (result @ [top_post_of conn row]) rows)"
  by (simp add: row_passes_def top_post_of_def split: prod.splits)

lemma collect_posts_eq:
  "collect_posts conn limit e r g result rows =
     result @ take (nat (max 1 (limit - int (length result))))
                (map (top_post_of conn) (filter (row_passes conn e r g) rows))"
proof (induction rows arbitrary: result)
  case Nil
  then show ?case by simp
next
  case (Cons row rows)
  show ?case
  proof (cases "row_passes conn e r g row")
    case False
    then show ?thesis
      using Cons.IH [of result] by (simp add: collect_posts_Cons del: collect_posts.simps)
  next
    case True
    let ?p = "top_post_of conn row"
    show ?thesis
    proof (cases "limit \<le> int (length result) + 1")
      case stop: True
      then have "nat (max 1 (limit - int (length result))) = 1" by simp
      with True stop show ?thesis
        by (simp add: collect_posts_Cons del: collect_posts.simps)
    next
      case go: False
      let ?F = "map (top_post_of conn) (filter (row_passes conn e r g) rows)"
      let ?k = "nat (limit - int (length result) - 1)"
      have k1: "nat (max 1 (limit - int (length result))) = Suc ?k"
        using go by simp
      have k2: "nat (max 1 (limit - int (length (result @ [?p])))) = ?k"
        using go by simp
      have "collect_posts conn limit e r g result (row # rows)
            = collect_posts conn limit e r g (result @ [?p]) rows"
        using True go by (simp add: collect_posts_Cons del: collect_posts.simps)
      also have "\<dots> = (result @ [?p]) @ take ?k ?F"
        unfolding k2 [symmetric] by (rule Cons.IH)
      also have "\<dots> = result @ take (Suc ?k) (?p # ?F)"
        by simp
      also have "\<dots> = result @ take (nat (max 1 (limit - int (length result))))
                 (map (top_post_of conn) (filter (row_passes conn e r g) (row # rows)))"
        unfolding k1 using True by simp
      finally show ?thesis .
    qed
  qed
qed

lemma window_start_eq:
  "window_start today d =
     (if max 1 d - 1 \<le> 999999999 \<and> min_day \<le> today - (max 1 d - 1)
         \<and> today - (max 1 d - 1) \<le> max_day
      then Inr (today - (max 1 d - 1)) else Inl OverflowError)"
  by (simp add: window_start_def timedelta_days_def date_sub_def)

lemma get_top_posts_eq:
  assumes "window_start today d = Inr start"
    and "candidates_limit limit \<le> 9223372036854775807"
  shows "get_top_posts conn today d limit e r g =
     Inr (take (nat (max 1 limit))
            (map (top_post_of conn)
               (filter (row_passes conn e r g) (query_rows conn start limit))))"
proof -
  have "- 9223372036854775808 \<le> candidates_limit limit"
    by (simp add: candidates_limit_def)
  with assms show ?thesis
    by (simp add: get_top_posts_def sqlite_integer_def collect_posts_eq)
qed

lemma get_top_posts_raises:
  "get_top_posts conn today d limit e r g = Inl err \<longleftrightarrow>
     err = OverflowError
     \<and> (window_start today d = Inl OverflowError
         \<or> 9223372036854775807 < candidates_limit limit)"
proof -
  have "- 9223372036854775808 \<le> candidates_limit limit"
    by (simp add: candidates_limit_def)
  then show ?thesis
    by (auto simp: get_top_posts_def sqlite_integer_def window_start_eq
             split: sum.splits if_splits)
qed

lemma get_top_posts_returns:
  assumes "get_top_posts conn today d limit e r g = Inr ps"
  shows "\<exists>start. window_start today d = Inr start
           \<and> candidates_limit limit \<le> 9223372036854775807
           \<and> ps = take (nat (max 1 limit))
                    (map (top_post_of conn)
                       (filter (row_passes conn e r g) (query_rows conn start limit)))"
proof (cases "window_start today d")
  case (Inl err)
  with assms show ?thesis by (simp add: get_top_posts_def)
next
  case (Inr start)
  show ?thesis
  proof (cases "candidates_limit limit \<le> 9223372036854775807")
    case True
    from get_top_posts_eq [OF Inr True, of conn e r g] assms Inr True show ?thesis
      by simp
  next
    case False
    with assms Inr show ?thesis
      by (simp add: get_top_posts_def sqlite_integer_def)
  qed
qed


lemma top_post_of_fields:
  "latest_reactions (top_post_of conn row) = r_latest_reactions row"
  "reactions_growth (top_post_of conn row) = r_reactions_growth row"
  "post_datetime (top_post_of conn row) = r_post_datetime row"
  by (simp_all add: top_post_of_def make_top_post_def split: prod.splits)

lemma split_links_github:
  "fst (split_links rows) = map l_url (filter (\<lambda>l. l_link_type l = ''github'') rows)"
  by (induction rows) (auto split: prod.splits)

lemma github_links_top_post_of:
  "github_links (top_post_of conn row)
     = map l_url (filter (\<lambda>l. l_link_type l = ''github'') (link_rows_of conn (r_id row)))"
  by (simp add: top_post_of_def make_top_post_def split_links_github [symmetric]
      split: prod.splits)

lemma row_passes_require_github:
  "row_passes conn e r True row \<Longrightarrow> github_links (top_post_of conn row) \<noteq> []"
  by (auto simp: row_passes_def top_post_of_def make_top_post_def passes_link_filters_def
      split: prod.splits if_splits)

lemma get_top_posts_passes:
  assumes "get_top_posts conn today d limit e r g = Inr ps" and "p \<in> set ps"
  shows "\<exists>start. window_start today d = Inr start
           \<and> (\<exists>row \<in> set (query_rows conn start limit).
                 p = top_post_of conn row \<and> row_passes conn e r g row)"
proof -
  from get_top_posts_returns [OF assms(1)] obtain start
    where st: "window_start today d = Inr start"
      and ps: "ps = take (nat (max 1 limit))
                    (map (top_post_of conn)
                       (filter (row_passes conn e r g) (query_rows conn start limit)))"
    by blast
  from assms(2) have "p \<in> set (map (top_post_of conn)
      (filter (row_passes conn e r g) (query_rows conn start limit)))"
    unfolding ps by (rule in_set_takeD)
  with st show ?thesis by auto
qed

lemma get_top_posts_require_github:
  "get_top_posts conn today d limit e r True = Inr ps \<Longrightarrow> p \<in> set ps \<Longrightarrow>
   github_links p \<noteq> []"
  using get_top_posts_passes [of conn today d limit e r True ps p]
  by (auto simp: row_passes_require_github)

lemma get_top_posts_positive_limit:
  assumes "1 \<le> limit" and "get_top_posts conn today d limit e r g = Inr ps"
  shows "(\<exists>start. window_start today d = Inr start
            \<and> ps = take (nat limit)
                     (map (top_post_of conn)
                        (filter (row_passes conn e r g) (query_rows conn start limit))))
         \<and> int (length ps) \<le> limit"
  using get_top_posts_returns [OF assms(2)] assms(1) by (auto simp: max_def)

lemma length_query_rows:
  "int (length (query_rows conn start limit)) \<le> max (limit * 10) 200"
  by (simp add: query_rows_def candidates_limit_def)

subsection \<open>The order of the ranking query\<close>

lemma set_insert_by: "set (insert_by le x xs) = insert x (set xs)"
  by (induction xs) auto

lemma sorted_insert_by:
  assumes total: "\<And>a b. le a b \<or> le b a" and trans: "\<And>a b c. le a b \<Longrightarrow> le b c \<Longrightarrow> le a c"
  shows "sorted_wrt le xs \<Longrightarrow> sorted_wrt le (insert_by le x xs)"
proof (induction xs)
  case Nil
  then show ?case by simp
next
  case (Cons y ys)
  show ?case
  proof (cases "le x y")
    case True
    with Cons.prems trans show ?thesis by auto
  next
    case False
    with total have "le y x" by blast
    with Cons False show ?thesis by (auto simp: set_insert_by)
  qed
qed

lemma sorted_order_by:
  assumes total: "\<And>a b. le a b \<or> le b a" and trans: "\<And>a b c. le a b \<Longrightarrow> le b c \<Longrightarrow> le a c"
  shows "sorted_wrt le (order_by le xs)"
  unfolding order_by_def
  by (induction xs) (simp_all add: sorted_insert_by [OF total trans])


lemma length_insert_by: "length (insert_by le x xs) = Suc (length xs)"
  by (induction xs) auto

lemma length_order_by: "length (order_by le xs) = length xs"
  unfolding order_by_def by (induction xs) (simp_all add: length_insert_by)

lemma ranks_before_total: "ranks_before a b \<or> ranks_before b a"
  by (auto simp: ranks_before_def)

lemma ranks_before_trans: "ranks_before a b \<Longrightarrow> ranks_before b c \<Longrightarrow> ranks_before a c"
  by (auto simp: ranks_before_def)

lemma sorted_ranked_rows: "sorted_wrt ranks_before (ranked_rows conn start)"
  unfolding ranked_rows_def
  by (rule sorted_order_by) (rule ranks_before_total, erule ranks_before_trans)

lemma sorted_query_rows: "sorted_wrt ranks_before (query_rows conn start limit)"
  unfolding query_rows_def by (rule sorted_wrt_take) (rule sorted_ranked_rows)

lemma post_ranks_before_top_post_of:
  "post_ranks_before (top_post_of conn a) (top_post_of conn b) = ranks_before a b"
  by (simp add: post_ranks_before_def ranks_before_def top_post_of_fields)

lemma sorted_get_top_posts:
  assumes "get_top_posts conn today d limit e r g = Inr ps"
  shows "sorted_wrt post_ranks_before ps"
proof -
  from get_top_posts_returns [OF assms] obtain start
    where ps: "ps = take (nat (max 1 limit))
                    (map (top_post_of conn)
                       (filter (row_passes conn e r g) (query_rows conn start limit)))"
    by blast
  show ?thesis
    unfolding ps
    by (intro sorted_wrt_take)
       (simp add: sorted_wrt_map post_ranks_before_top_post_of sorted_wrt_filter
          sorted_query_rows)
qed

text \<open>
  Claim C4. The candidates of the ranking query, and the posts that \<open>get_top_posts\<close>
  returns from them, are ordered by latest in-window total reactions descending, then by
  growth descending, then by post timestamp (the stored \<open>post_datetime\<close>) descending: of
  two rows at positions \<open>i < j\<close> the earlier has at least the latest reactions of the
  later; if these are equal it has at least its growth; and if both are equal it has at
  least its timestamp. The candidates are ordered so for every window start.
\<close>

theorem ranking_order:
  "(rows = query_rows conn start limit \<and> i < j \<and> j < length rows \<longrightarrow>
      r_latest_reactions (rows ! i) \<ge> r_latest_reactions (rows ! j)
      \<and> (r_latest_reactions (rows ! i) = r_latest_reactions (rows ! j) \<longrightarrow>
            r_reactions_growth (rows ! i) \<ge> r_reactions_growth (rows ! j))
      \<and> (r_latest_reactions (rows ! i) = r_latest_reactions (rows ! j)
          \<and> r_reactions_growth (rows ! i) = r_reactions_growth (rows ! j) \<longrightarrow>
            r_post_datetime (rows ! i) \<ge> r_post_datetime (rows ! j)))
   \<and> (get_top_posts conn today d limit e r g = Inr ps \<and> i < j \<and> j < length ps \<longrightarrow>
      latest_reactions (ps ! i) \<ge> latest_reactions (ps ! j)
      \<and> (latest_reactions (ps ! i) = latest_reactions (ps ! j) \<longrightarrow>
            reactions_growth (ps ! i) \<ge> reactions_growth (ps ! j))
      \<and> (latest_reactions (ps ! i) = latest_reactions (ps ! j)
          \<and> reactions_growth (ps ! i) = reactions_growth (ps ! j) \<longrightarrow>
            post_datetime (ps ! i) \<ge> post_datetime (ps ! j)))"
proof (intro conjI impI)
  assume a: "rows = query_rows conn start limit \<and> i < j \<and> j < length rows"
  then have rb: "ranks_before (rows ! i) (rows ! j)"
    using sorted_query_rows [of conn start limit]
    by (auto simp: sorted_wrt_iff_nth_less)
  from rb show "r_latest_reactions (rows ! i) \<ge> r_latest_reactions (rows ! j)"
    by (auto simp: ranks_before_def)
  { assume "r_latest_reactions (rows ! i) = r_latest_reactions (rows ! j)"
    with rb show "r_reactions_growth (rows ! i) \<ge> r_reactions_growth (rows ! j)"
      by (auto simp: ranks_before_def) }
  { assume "r_latest_reactions (rows ! i) = r_latest_reactions (rows ! j)
          \<and> r_reactions_growth (rows ! i) = r_reactions_growth (rows ! j)"
    with rb show "r_post_datetime (rows ! i) \<ge> r_post_datetime (rows ! j)"
      by (auto simp: ranks_before_def) }
next
  assume a: "get_top_posts conn today d limit e r g = Inr ps \<and> i < j \<and> j < length ps"
  then have rb: "post_ranks_before (ps ! i) (ps ! j)"
    using sorted_get_top_posts [of conn today d limit e r g ps]
    by (auto simp: sorted_wrt_iff_nth_less)
  from rb show "latest_reactions (ps ! i) \<ge> latest_reactions (ps ! j)"
    by (auto simp: post_ranks_before_def)
  { assume "latest_reactions (ps ! i) = latest_reactions (ps ! j)"
    with rb show "reactions_growth (ps ! i) \<ge> reactions_growth (ps ! j)"
      by (auto simp: post_ranks_before_def) }
  { assume "latest_reactions (ps ! i) = latest_reactions (ps ! j)
          \<and> reactions_growth (ps ! i) = reactions_growth (ps ! j)"
    with rb show "post_datetime (ps ! i) \<ge> post_datetime (ps ! j)"
      by (auto simp: post_ranks_before_def) }
qed

theorem ranking_order_witness:
  "window_start 100 7 = Inr 94
   \<and> map r_message_id (query_rows tie_db 94 20) = [43, 42]
   \<and> map r_latest_reactions (query_rows tie_db 94 20) = [5, 5]
   \<and> map r_reactions_growth (query_rows tie_db 94 20) = [0, 0]
   \<and> r_post_datetime (query_rows tie_db 94 20 ! 0)
        \<ge> r_post_datetime (query_rows tie_db 94 20 ! 1)
   \<and> (\<exists>ps. get_top_posts tie_db 100 7 20 True False True = Inr ps
          \<and> map message_id ps = [43, 42]
          \<and> post_datetime (ps ! 0) \<ge> post_datetime (ps ! 1))"
proof -
  let ?rows = "query_rows tie_db 94 20"
  let ?ps = "collect_posts tie_db 20 True False True [] (query_rows tie_db 94 20)"
  have ws: "window_start 100 7 = Inr 94"
    by (simp add: window_start_eq min_day_def max_day_def)
  have g: "get_top_posts tie_db 100 7 20 True False True = Inr ?ps"
    by (simp add: get_top_posts_def ws sqlite_integer_def candidates_limit_def)
  have r1: "map r_message_id ?rows = [43, 42]" by code_simp
  have r2: "map r_latest_reactions ?rows = [5, 5]" by code_simp
  have r3: "map r_reactions_growth ?rows = [0, 0]" by code_simp
  have p1: "map message_id ?ps = [43, 42]" by code_simp
  have p2: "map latest_reactions ?ps = [5, 5]" by code_simp
  have p3: "map reactions_growth ?ps = [0, 0]" by code_simp
  have lr: "length ?rows = 2"
    using arg_cong [OF r1, of length] by simp
  have lp: "length ?ps = 2"
    using arg_cong [OF p1, of length] by simp
  have er: "r_latest_reactions (?rows ! 0) = r_latest_reactions (?rows ! 1)
            \<and> r_reactions_growth (?rows ! 0) = r_reactions_growth (?rows ! 1)"
    using arg_cong [OF r2, of "\<lambda>xs. xs ! 0"] arg_cong [OF r2, of "\<lambda>xs. xs ! 1"]
      arg_cong [OF r3, of "\<lambda>xs. xs ! 0"] arg_cong [OF r3, of "\<lambda>xs. xs ! 1"] lr
    by simp
  have ep: "latest_reactions (?ps ! 0) = latest_reactions (?ps ! 1)
            \<and> reactions_growth (?ps ! 0) = reactions_growth (?ps ! 1)"
    using arg_cong [OF p2, of "\<lambda>xs. xs ! 0"] arg_cong [OF p2, of "\<lambda>xs. xs ! 1"]
      arg_cong [OF p3, of "\<lambda>xs. xs ! 0"] arg_cong [OF p3, of "\<lambda>xs. xs ! 1"] lp
    by simp
  have ord: "(0::nat) < 1" by simp
  from ranking_order [of ?rows tie_db 94 20 0 1 100 7 True False True ?ps] g lr lp er ep ord
  have "r_post_datetime (?rows ! 0) \<ge> r_post_datetime (?rows ! 1)
        \<and> post_datetime (?ps ! 0) \<ge> post_datetime (?ps ! 1)"
    by simp
  with ws g r1 r2 r3 p1 show ?thesis by simp
qed

text \<open>
  Claim C5. The result is claimed to be a prefix of length at most \<open>limit\<close> of the
  candidates that pass the filters. The loop tests \<open>len(result) >= limit\<close> only after it
  has appended a post, so with \<open>limit = 0\<close> (as \<open>/top 0\<close> or \<open>--limit 0\<close> pass it) and
  one passing candidate the result has one post, not none.
\<close>

theorem get_top_posts_limit_zero:
  "map_sum id (map message_id) (get_top_posts github_db 100 7 0 True False True) = Inr [42]
   \<and> map_sum id length (get_top_posts github_db 100 7 0 True False True) = Inr 1"
  by code_simp

subsection \<open>The window and the growth\<close>

















section \<open>Properties of the scrape run\<close>

subsection \<open>The message loop\<close>

lemma older_than_simps:
  "older_than since_dt Raises = False"
  "older_than since_dt (Yields m)
     = (case msg_date m of None \<Rightarrow> False | Some d \<Rightarrow> normalize_dt d < since_dt)"
  by (simp_all add: older_than_def)

lemma dated_simps:
  "dated Raises = False"
  "dated (Yields m) = (msg_date m \<noteq> None)"
  by (simp_all add: dated_def)


lemma process_messages_takeWhile:
  "process_messages chk since_dt day cid cu ct conn n items
     = process_messages chk since_dt day cid cu ct conn n
         (takeWhile (\<lambda>item. \<not> older_than since_dt item) items)"
proof (induction items arbitrary: conn n)
  case Nil
  show ?case by simp
next
  case (Cons item items)
  show ?case
  proof (cases item)
    case Raises
    then show ?thesis by (simp add: older_than_simps)
  next
    case (Yields x)
    then show ?thesis
      using Cons.IH by (simp add: older_than_simps Let_def split: option.splits sum.splits)
  qed
qed

lemma process_messages_count:
  "process_messages chk since_dt day cid cu ct conn n items = Inr (n', conn') \<Longrightarrow>
   n' = n + int (length (filter dated (takeWhile (\<lambda>item. \<not> older_than since_dt item) items)))"
proof (induction items arbitrary: conn n)
  case Nil
  then show ?case by simp
next
  case (Cons item items)
  show ?case
  proof (cases item)
    case Raises
    with Cons.prems show ?thesis by simp
  next
    case (Yields x)
    show ?thesis
    proof (cases "msg_date x")
      case None
      with Yields Cons.prems have "process_messages chk since_dt day cid cu ct conn n items
                                     = Inr (n', conn')"
        by simp
      from Cons.IH [OF this] Yields None show ?thesis
        by (simp add: older_than_simps dated_simps)
    next
      case (Some d)
      show ?thesis
      proof (cases "normalize_dt d < since_dt")
        case True
        with Yields Some Cons.prems show ?thesis
          by (simp add: older_than_simps)
      next
        case False
        with Yields Some Cons.prems obtain c where
          "ingest_message chk conn cid cu ct day (normalize_dt d) x = Inr c"
          "process_messages chk since_dt day cid cu ct c (n + 1) items = Inr (n', conn')"
          by (auto simp: Let_def split: sum.splits)
        from Cons.IH [OF this(2)] Yields Some False show ?thesis
          by (simp add: older_than_simps dated_simps)
      qed
    qed
  qed
qed







subsection \<open>The cutoff\<close>


lemma date_of_cutoff: "date_of (now - l * microseconds_per_day) = date_of now - l"
  unfolding date_of_def microseconds_per_day_def by simp

lemma scrape_lookback_cutoff:
  "scrape_lookback chk settings cl now conn0 lookback_days =
     (if - 999999999 \<le> effective_lookback settings lookback_days
         \<and> effective_lookback settings lookback_days \<le> 999999999
         \<and> min_day \<le> date_of now - effective_lookback settings lookback_days
         \<and> date_of now - effective_lookback settings lookback_days \<le> max_day
      then (case scrape_channels chk cl
                   (now - effective_lookback settings lookback_days * microseconds_per_day)
                   (date_of now)
                   \<lparr>channels_total = int (length (settings_channels settings)),
                    channels_ok = 0, channels_failed = 0, posts_processed = 0\<rparr>
                   conn0 (settings_channels settings) of
              Inl e \<Rightarrow> (Inl e, conn0)
            | Inr (stats, conn) \<Rightarrow> (Inr stats, conn))
      else (Inl OverflowError, conn0))"
  by (simp add: scrape_lookback_def effective_lookback_def timedelta_days_def
      datetime_sub_def date_of_cutoff Let_def)




subsection \<open>The loop over the channels\<close>

lemma scrape_channels_unresolved:
  assumes "get_entity cl (lstrip (\<lambda>c. c = CHR ''@'') raw_channel) = ChannelUnavailable
           \<or> get_entity cl (lstrip (\<lambda>c. c = CHR ''@'') raw_channel) = UnexpectedError"
  shows "scrape_channels chk cl since_dt day stats conn (raw_channel # rest)
           = scrape_channels chk cl since_dt day
               (stats\<lparr>channels_failed := channels_failed stats + 1\<rparr>) conn rest"
  using assms by (auto simp: Let_def)

lemma scrape_channels_raises:
  assumes "get_entity cl (lstrip (\<lambda>c. c = CHR ''@'') raw_channel) = Resolved entity"
    and "process_messages chk since_dt day (e_id entity) (e_username entity)
           (case e_title entity of Some t \<Rightarrow> t
            | None \<Rightarrow> lstrip (\<lambda>c. c = CHR ''@'') raw_channel)
           conn 0 (iter_messages cl entity) = Inl err"
  shows "scrape_channels chk cl since_dt day stats conn (raw_channel # rest) = Inl err"
  using assms by (simp add: Let_def)

lemma scrape_channels_stats:
  "scrape_channels chk cl since_dt day stats conn chans = Inr (stats', conn') \<Longrightarrow>
   channels_total stats' = channels_total stats
   \<and> channels_ok stats' + channels_failed stats'
       = channels_ok stats + channels_failed stats + int (length chans)"
proof (induction chans arbitrary: stats conn)
  case Nil
  then show ?case by simp
next
  case (Cons c chans)
  let ?ch = "lstrip (\<lambda>c. c = CHR ''@'') c"
  show ?case
  proof (cases "get_entity cl ?ch")
    case ChannelUnavailable
    with Cons.prems have "scrape_channels chk cl since_dt day
        (stats\<lparr>channels_failed := channels_failed stats + 1\<rparr>) conn chans = Inr (stats', conn')"
      by (simp add: Let_def)
    from Cons.IH [OF this] show ?thesis by simp
  next
    case UnexpectedError
    with Cons.prems have "scrape_channels chk cl since_dt day
        (stats\<lparr>channels_failed := channels_failed stats + 1\<rparr>) conn chans = Inr (stats', conn')"
      by (simp add: Let_def)
    from Cons.IH [OF this] show ?thesis by simp
  next
    case (Resolved entity)
    with Cons.prems obtain k c' where
      "scrape_channels chk cl since_dt day
         (stats\<lparr>channels_ok := channels_ok stats + 1,
                posts_processed := posts_processed stats + k\<rparr>) c' chans = Inr (stats', conn')"
      by (auto simp: Let_def split: sum.splits)
    from Cons.IH [OF this] show ?thesis by simp
  qed
qed

lemma scrape_lookback_stats:
  "scrape_lookback chk settings cl now conn0 lookback_days = (Inr stats, conn) \<Longrightarrow>
   channels_total stats = int (length (settings_channels settings))
   \<and> channels_ok stats + channels_failed stats = channels_total stats"
  unfolding scrape_lookback_cutoff
  by (auto split: sum.splits if_splits dest!: scrape_channels_stats)

text \<open>
  Claim C1. Every unexpected error raised while a channel is processed is claimed to be
  caught and counted, the run going on with the remaining channels. The \<open>try\<close> of the
  channel loop holds \<open>get_entity\<close> alone. When the message stream of the first of two
  channels raises, or when a message of it carries the text \<open>http://[\<close> (on which link
  classification raises), the exception leaves \<open>scrape_lookback\<close>: no statistics are
  returned, the second channel is not processed, and nothing is committed.
\<close>

theorem scrape_lookback_aborts:
  "scrape_lookback accept_bracketed two_channels raising_client noon_day_10 github_db (Some 1)
     = (Inl SourceError, github_db)
   \<and> scrape_lookback accept_bracketed two_channels bracket_client noon_day_10 github_db (Some 1)
       = (Inl ValueError, github_db)"
  by code_simp

section \<open>Properties of the store\<close>

subsection \<open>Rows, keys and row identifiers\<close>

lemma new_rowid_fresh: "x \<in> set ids \<Longrightarrow> x < new_rowid seq ids"
proof -
  have "x \<in> set ids \<Longrightarrow> x \<le> fold max ids s" for s
  proof (induction ids arbitrary: s)
    case Nil
    then show ?case by simp
  next
    case (Cons a ids)
    have mono: "s \<le> fold max ids s" for s
      by (induction ids arbitrary: s) (auto intro: order_trans [OF max.cobounded2])
    from Cons show ?case
      by (auto intro: order_trans [OF max.cobounded1 mono])
  qed
  then show "x \<in> set ids \<Longrightarrow> x < new_rowid seq ids"
    by (fastforce simp: new_rowid_def)
qed

lemma new_rowid_notin: "new_rowid seq ids \<notin> set ids"
  using new_rowid_fresh [of "new_rowid seq ids" ids seq] by auto

lemma find_append_single:
  "find P (xs @ [x]) = (case find P xs of Some y \<Rightarrow> Some y | None \<Rightarrow> if P x then Some x else None)"
  by (induction xs) auto

lemma find_None_list_ex: "find P xs = None \<longleftrightarrow> \<not> list_ex P xs"
  by (auto simp: find_None_iff list_ex_iff)

lemma filter_upd:
  assumes "\<And>x. P (f x) = P x"
  shows "filter P (map (\<lambda>x. if P x then f x else x) xs) = map f (filter P xs)"
  using assms by (induction xs) auto

lemma filter_not_upd:
  assumes "\<And>x. P x \<Longrightarrow> \<not> Q x" "\<And>x. P x \<Longrightarrow> \<not> Q (f x)"
  shows "filter Q (map (\<lambda>x. if P x then f x else x) xs) = filter Q xs"
  using assms by (induction xs) auto

lemma map_upd_key:
  assumes "\<And>x. k (f x) = k x"
  shows "map k (map (\<lambda>x. if P x then f x else x) xs) = map k xs"
  using assms by (induction xs) auto

lemma map_upd_id:
  assumes "\<And>x. x \<in> set xs \<Longrightarrow> P x \<Longrightarrow> f x = x"
  shows "map (\<lambda>x. if P x then f x else x) xs = xs"
  using assms by (induction xs) auto

lemma distinct_key_filter_le1:
  "distinct (map k xs) \<Longrightarrow> length (filter (\<lambda>x. k x = key) xs) \<le> 1"
proof (induction xs)
  case Nil
  then show ?case by simp
next
  case (Cons a xs)
  show ?case
  proof (cases "k a = key")
    case True
    have "k x \<noteq> key" if "x \<in> set xs" for x
    proof
      assume "k x = key"
      with True that have "k a \<in> k ` set xs" by (metis imageI)
      with Cons.prems show False by simp
    qed
    then have "filter (\<lambda>x. k x = key) xs = []"
      by (simp add: filter_empty_conv)
    with True show ?thesis by simp
  next
    case False
    with Cons show ?thesis by simp
  qed
qed

lemma distinct_key_filter_one:
  assumes "distinct (map k xs)" and "x \<in> set xs" and "k x = key"
  shows "filter (\<lambda>x. k x = key) xs = [x]"
proof -
  from assms(2,3) have mem: "x \<in> set (filter (\<lambda>x. k x = key) xs)" by simp
  from distinct_key_filter_le1 [OF assms(1), of key]
  have "length (filter (\<lambda>x. k x = key) xs) \<le> 1" .
  with mem show ?thesis
    by (cases "filter (\<lambda>x. k x = key) xs") auto
qed

subsection \<open>\<open>upsert_post\<close>\<close>

lemma same_post_key:
  "same_post cid mid p \<longleftrightarrow> (p_channel_id p, p_message_id p) = (cid, mid)"
  by (auto simp: same_post_def)

lemma same_post_update [simp]:
  "same_post cid mid (update_post cu ct url dt mtext v f p) = same_post cid mid p"
  by (simp add: same_post_def update_post_def)

lemma update_post_keeps [simp]:
  "p_id (update_post cu ct url dt mtext v f p) = p_id p"
  "p_channel_id (update_post cu ct url dt mtext v f p) = p_channel_id p"
  "p_message_id (update_post cu ct url dt mtext v f p) = p_message_id p"
  by (simp_all add: update_post_def)

lemma update_post_twice [simp]:
  "update_post cu ct url dt mtext v f (update_post cu ct url dt mtext v f p)
     = update_post cu ct url dt mtext v f p"
  by (simp add: update_post_def)

text \<open>
  The rows of \<open>posts\<close> after \<open>upsert_post\<close>, and the identifier it returns: it never
  raises.
\<close>

lemma upsert_post_result:
  "\<exists>pid conn'.
     upsert_post conn cid cu ct mid url dt mtext v f = Inr (pid, conn')
     \<and> links conn' = links conn \<and> snapshots conn' = snapshots conn
     \<and> seq_links conn' = seq_links conn \<and> seq_snapshots conn' = seq_snapshots conn
     \<and> seq_posts conn' = new_rowid (seq_posts conn) (map p_id (posts conn))
     \<and> posts conn' =
         (if list_ex (same_post cid mid) (posts conn)
          then map (\<lambda>p. if same_post cid mid p then update_post cu ct url dt mtext v f p else p)
                 (posts conn)
          else posts conn @
                 [\<lparr>p_id = new_rowid (seq_posts conn) (map p_id (posts conn)),
                   p_channel_id = cid, p_channel_username = cu, p_channel_title = ct,
                   p_message_id = mid, p_post_url = url, p_post_datetime = dt,
                   p_message_text = mtext, p_views = v, p_forwards = f\<rparr>])
     \<and> find (same_post cid mid) (posts conn') \<noteq> None
     \<and> map_option p_id (find (same_post cid mid) (posts conn')) = Some pid"
proof (cases "list_ex (same_post cid mid) (posts conn)")
  case True
  let ?upd = "\<lambda>p. if same_post cid mid p then update_post cu ct url dt mtext v f p else p"
  from True obtain p0 where p0: "find (same_post cid mid) (posts conn) = Some p0"
    by (cases "find (same_post cid mid) (posts conn)") (auto simp: find_None_list_ex)
  have "find (same_post cid mid) (map ?upd xs) = map_option ?upd (find (same_post cid mid) xs)"
    for xs by (induction xs) auto
  with p0 have "find (same_post cid mid) (map ?upd (posts conn)) = Some (?upd p0)"
    by simp
  with True show ?thesis
    by (simp add: upsert_post_def Let_def)
next
  case False
  then have "find (same_post cid mid) (posts conn) = None"
    by (simp add: find_None_list_ex)
  with False show ?thesis
    by (simp add: upsert_post_def Let_def find_append_single same_post_def)
qed

lemma upsert_post_one_row:
  assumes "distinct (map (\<lambda>p. (p_channel_id p, p_message_id p)) (posts conn))"
    and "upsert_post conn cid cu ct mid url dt mtext v f = Inr (pid, conn')"
  shows "\<exists>row. filter (same_post cid mid) (posts conn') = [row]
               \<and> p_id row = pid
               \<and> row = update_post cu ct url dt mtext v f row"
proof -
  let ?k = "\<lambda>p. (p_channel_id p, p_message_id p)"
  let ?upd = "\<lambda>p. if same_post cid mid p then update_post cu ct url dt mtext v f p else p"
  have flt: "filter (same_post cid mid) xs = filter (\<lambda>p. ?k p = (cid, mid)) xs" for xs
    by (rule filter_cong) (auto simp: same_post_def)
  from upsert_post_result [of conn cid cu ct mid url dt mtext v f] assms(2)
  have posts': "posts conn' =
         (if list_ex (same_post cid mid) (posts conn)
          then map ?upd (posts conn)
          else posts conn @
                 [\<lparr>p_id = new_rowid (seq_posts conn) (map p_id (posts conn)),
                   p_channel_id = cid, p_channel_username = cu, p_channel_title = ct,
                   p_message_id = mid, p_post_url = url, p_post_datetime = dt,
                   p_message_text = mtext, p_views = v, p_forwards = f\<rparr>])"
    and found: "map_option p_id (find (same_post cid mid) (posts conn')) = Some pid"
    by auto
  from found obtain row where row: "find (same_post cid mid) (posts conn') = Some row"
    and pid: "p_id row = pid"
    by (cases "find (same_post cid mid) (posts conn')") auto
  from row have mem: "row \<in> set (posts conn')" and key: "?k row = (cid, mid)"
    by (auto simp: find_Some_iff same_post_key in_set_conv_nth)
  have keys: "map ?k (posts conn') =
                (if list_ex (same_post cid mid) (posts conn) then map ?k (posts conn)
                 else map ?k (posts conn) @ [(cid, mid)])"
    unfolding posts' by (simp add: map_upd_key)
  have dist: "distinct (map ?k (posts conn'))"
    unfolding keys using assms(1)
    by (auto simp: list_ex_iff same_post_key)
  have one: "filter (same_post cid mid) (posts conn') = [row]"
    unfolding flt by (rule distinct_key_filter_one [OF dist mem key])
  have "row = update_post cu ct url dt mtext v f row"
  proof (cases "list_ex (same_post cid mid) (posts conn)")
    case True
    with mem posts' have "row \<in> set (map ?upd (posts conn))" by simp
    then obtain p where p: "row = ?upd p" unfolding set_map by blast
    from key have "same_post cid mid row" by (simp add: same_post_key)
    with p show ?thesis
      by (cases "same_post cid mid p") simp_all
  next
    case False
    let ?new = "\<lparr>p_id = new_rowid (seq_posts conn) (map p_id (posts conn)),
                   p_channel_id = cid, p_channel_username = cu, p_channel_title = ct,
                   p_message_id = mid, p_post_url = url, p_post_datetime = dt,
                   p_message_text = mtext, p_views = v, p_forwards = f\<rparr>"
    from False have none: "\<not> same_post cid mid q" if "q \<in> set (posts conn)" for q
      using that by (auto simp: list_ex_iff)
    from False posts' have "posts conn' = posts conn @ [?new]" by simp
    with mem have "row \<in> set (posts conn) \<or> row = ?new" by auto
    moreover from key have "same_post cid mid row" by (simp add: same_post_key)
    ultimately have "row = ?new" using none by blast
    then show ?thesis by (simp add: update_post_def)
  qed
  with one pid show ?thesis by blast
qed

lemma upsert_post_again:
  assumes "upsert_post conn cid cu ct mid url dt mtext v f = Inr (pid, conn')"
  shows "\<exists>conn''. upsert_post conn' cid cu ct mid url dt mtext v f = Inr (pid, conn'')
                   \<and> posts conn'' = posts conn'"
proof -
  let ?upd = "\<lambda>p. if same_post cid mid p then update_post cu ct url dt mtext v f p else p"
  from upsert_post_result [of conn cid cu ct mid url dt mtext v f] assms
  have posts': "posts conn' =
         (if list_ex (same_post cid mid) (posts conn)
          then map ?upd (posts conn)
          else posts conn @
                 [\<lparr>p_id = new_rowid (seq_posts conn) (map p_id (posts conn)),
                   p_channel_id = cid, p_channel_username = cu, p_channel_title = ct,
                   p_message_id = mid, p_post_url = url, p_post_datetime = dt,
                   p_message_text = mtext, p_views = v, p_forwards = f\<rparr>])"
    and found: "find (same_post cid mid) (posts conn') \<noteq> None"
      "map_option p_id (find (same_post cid mid) (posts conn')) = Some pid"
    by auto
  from found(1) have ex: "list_ex (same_post cid mid) (posts conn')"
    by (simp add: find_None_list_ex)
  have unchanged: "map ?upd (posts conn') = posts conn'"
  proof (rule map_upd_id)
    fix p
    assume mem: "p \<in> set (posts conn')" and sp: "same_post cid mid p"
    show "update_post cu ct url dt mtext v f p = p"
    proof (cases "list_ex (same_post cid mid) (posts conn)")
      case True
      with mem posts' have "p \<in> set (map ?upd (posts conn))" by simp
      then obtain q where q: "p = ?upd q" unfolding set_map by blast
      with sp show ?thesis
        by (cases "same_post cid mid q") simp_all
    next
      case False
      then have none: "\<not> same_post cid mid q" if "q \<in> set (posts conn)" for q
        using that by (auto simp: list_ex_iff)
      let ?new = "\<lparr>p_id = new_rowid (seq_posts conn) (map p_id (posts conn)),
                   p_channel_id = cid, p_channel_username = cu, p_channel_title = ct,
                   p_message_id = mid, p_post_url = url, p_post_datetime = dt,
                   p_message_text = mtext, p_views = v, p_forwards = f\<rparr>"
      from False posts' have "posts conn' = posts conn @ [?new]" by simp
      with mem have "p \<in> set (posts conn) \<or> p = ?new" by auto
      with sp none have "p = ?new" by blast
      then show ?thesis by (simp add: update_post_def)
    qed
  qed
  from upsert_post_result [of conn' cid cu ct mid url dt mtext v f]
  obtain pid2 conn'' where r: "upsert_post conn' cid cu ct mid url dt mtext v f = Inr (pid2, conn'')"
    and p2: "posts conn'' = map ?upd (posts conn')"
    and f2: "map_option p_id (find (same_post cid mid) (posts conn'')) = Some pid2"
    using ex by auto
  from p2 unchanged have same: "posts conn'' = posts conn'" by simp
  with f2 found(2) have "pid2 = pid" by simp
  with r same show ?thesis by blast
qed

subsection \<open>\<open>replace_links\<close>\<close>

lemma insert_or_ignore_link_tables [simp]:
  "posts (insert_or_ignore_link pid lk conn) = posts conn"
  "snapshots (insert_or_ignore_link pid lk conn) = snapshots conn"
  "seq_posts (insert_or_ignore_link pid lk conn) = seq_posts conn"
  "seq_snapshots (insert_or_ignore_link pid lk conn) = seq_snapshots conn"
  by (simp_all add: insert_or_ignore_link_def Let_def)

lemma fold_insert_or_ignore_link_tables [simp]:
  "posts (fold (insert_or_ignore_link pid) lks conn) = posts conn"
  "snapshots (fold (insert_or_ignore_link pid) lks conn) = snapshots conn"
  "seq_posts (fold (insert_or_ignore_link pid) lks conn) = seq_posts conn"
  "seq_snapshots (fold (insert_or_ignore_link pid) lks conn) = seq_snapshots conn"
  by (induction lks arbitrary: conn) simp_all

lemma replace_links_tables [simp]:
  "posts (replace_links conn pid lks) = posts conn"
  "snapshots (replace_links conn pid lks) = snapshots conn"
  "seq_posts (replace_links conn pid lks) = seq_posts conn"
  "seq_snapshots (replace_links conn pid lks) = seq_snapshots conn"
  by (simp_all add: replace_links_def Let_def)

lemma link_exists_iff:
  "list_ex (\<lambda>l. l_post_id l = pid \<and> l_url l = u) (links conn)
     \<longleftrightarrow> u \<in> fst ` set (links_of conn pid)"
  by (force simp: list_ex_iff links_of_def)

lemma links_of_insert:
  "links_of (insert_or_ignore_link pid lk conn) pid =
     (if fst lk \<in> fst ` set (links_of conn pid) then links_of conn pid
      else links_of conn pid @ [lk])"
  unfolding insert_or_ignore_link_def Let_def link_exists_iff
  by (simp add: links_of_def)

lemma links_of_insert_other:
  "pid' \<noteq> pid \<Longrightarrow> links_of (insert_or_ignore_link pid lk conn) pid' = links_of conn pid'"
  by (simp add: insert_or_ignore_link_def Let_def links_of_def)

lemma links_of_fold:
  assumes "distinct (map fst lks)"
    and "fst ` set lks \<inter> fst ` set (links_of conn pid) = {}"
  shows "links_of (fold (insert_or_ignore_link pid) lks conn) pid = links_of conn pid @ lks"
  using assms
proof (induction lks arbitrary: conn)
  case Nil
  then show ?case by simp
next
  case (Cons lk lks)
  let ?c = "insert_or_ignore_link pid lk conn"
  from Cons.prems(2) have new: "fst lk \<notin> fst ` set (links_of conn pid)" by auto
  then have step: "links_of ?c pid = links_of conn pid @ [lk]"
    by (simp add: links_of_insert)
  from Cons.prems have d: "distinct (map fst lks)" and n: "fst lk \<notin> fst ` set lks"
    by auto
  from Cons.prems(2) n have "fst ` set lks \<inter> fst ` set (links_of ?c pid) = {}"
    unfolding step by auto
  from Cons.IH [OF d this] step show ?case by simp
qed

lemma links_of_fold_other:
  "pid' \<noteq> pid \<Longrightarrow> links_of (fold (insert_or_ignore_link pid) lks conn) pid' = links_of conn pid'"
  by (induction lks arbitrary: conn) (simp_all add: links_of_insert_other)

lemma links_of_replace:
  assumes "distinct (map fst lks)"
  shows "links_of (replace_links conn pid lks) pid = lks"
proof -
  let ?c = "conn\<lparr>links := filter (\<lambda>l. l_post_id l \<noteq> pid) (links conn)\<rparr>"
  have empty: "links_of ?c pid = []"
    by (simp add: links_of_def)
  then have "links_of (fold (insert_or_ignore_link pid) lks ?c) pid = links_of ?c pid @ lks"
    by (intro links_of_fold assms) simp
  with empty show ?thesis
    by (simp add: replace_links_def Let_def)
qed

lemma links_of_replace_other:
  assumes "pid' \<noteq> pid"
  shows "links_of (replace_links conn pid lks) pid' = links_of conn pid'"
proof -
  let ?c = "conn\<lparr>links := filter (\<lambda>l. l_post_id l \<noteq> pid) (links conn)\<rparr>"
  have "filter (\<lambda>l. l_post_id l = pid') (filter (\<lambda>l. l_post_id l \<noteq> pid) (links conn))
          = filter (\<lambda>l. l_post_id l = pid') (links conn)"
    using assms by (auto intro: filter_cong)
  then have "links_of ?c pid' = links_of conn pid'"
    by (simp add: links_of_def)
  with assms show ?thesis
    by (simp add: replace_links_def Let_def links_of_fold_other)
qed

lemma links_with_types_urls:
  "links_with_types chk urls = Inr lks \<Longrightarrow> map fst lks = urls"
  by (induction urls arbitrary: lks) (auto split: sum.splits)

lemma distinct_extract_urls: "distinct (extract_urls m)"
  by (simp add: extract_urls_def Let_def)

lemma links_with_types_extract_distinct:
  "links_with_types chk (extract_urls m) = Inr lks \<Longrightarrow> distinct (map fst lks)"
  by (simp add: links_with_types_urls distinct_extract_urls)

text \<open>The primary key and the \<open>UNIQUE(post_id, url)\<close> constraint of \<open>links\<close> are kept.\<close>

lemma insert_or_ignore_link_distinct:
  assumes "distinct (map l_id (links conn))"
    and "distinct (map (\<lambda>l. (l_post_id l, l_url l)) (links conn))"
  shows "distinct (map l_id (links (insert_or_ignore_link pid lk conn)))
         \<and> distinct (map (\<lambda>l. (l_post_id l, l_url l)) (links (insert_or_ignore_link pid lk conn)))"
proof (cases "list_ex (\<lambda>l. l_post_id l = pid \<and> l_url l = fst lk) (links conn)")
  case True
  with assms show ?thesis
    by (simp add: insert_or_ignore_link_def Let_def)
next
  case False
  then have "(pid, fst lk) \<notin> (\<lambda>l. (l_post_id l, l_url l)) ` set (links conn)"
    by (auto simp: list_ex_iff)
  with False assms new_rowid_notin [of "seq_links conn" "map l_id (links conn)"]
  show ?thesis
    by (simp add: insert_or_ignore_link_def Let_def)
qed

lemma fold_insert_or_ignore_link_distinct:
  assumes "distinct (map l_id (links conn))"
    and "distinct (map (\<lambda>l. (l_post_id l, l_url l)) (links conn))"
  shows "distinct (map l_id (links (fold (insert_or_ignore_link pid) lks conn)))
         \<and> distinct (map (\<lambda>l. (l_post_id l, l_url l))
                       (links (fold (insert_or_ignore_link pid) lks conn)))"
  using assms
proof (induction lks arbitrary: conn)
  case Nil
  then show ?case by simp
next
  case (Cons lk lks)
  from insert_or_ignore_link_distinct [OF Cons.prems, of pid lk]
  show ?case by (simp add: Cons.IH)
qed

lemma replace_links_distinct:
  assumes "distinct (map l_id (links conn))"
    and "distinct (map (\<lambda>l. (l_post_id l, l_url l)) (links conn))"
  shows "distinct (map l_id (links (replace_links conn pid lks)))
         \<and> distinct (map (\<lambda>l. (l_post_id l, l_url l)) (links (replace_links conn pid lks)))"
proof -
  let ?c = "conn\<lparr>links := filter (\<lambda>l. l_post_id l \<noteq> pid) (links conn)\<rparr>"
  from assms have d: "distinct (map l_id (links ?c))"
    "distinct (map (\<lambda>l. (l_post_id l, l_url l)) (links ?c))"
    by (simp_all add: distinct_map_filter)
  from fold_insert_or_ignore_link_distinct [OF d, of pid lks] d show ?thesis
    by (simp add: replace_links_def Let_def)
qed

subsection \<open>\<open>upsert_snapshot\<close>\<close>

lemma same_snapshot_update [simp]:
  "same_snapshot pid day (update_snapshot n js v f s) = same_snapshot pid day s"
  by (simp add: same_snapshot_def update_snapshot_def)

lemma update_snapshot_keeps [simp]:
  "s_id (update_snapshot n js v f s) = s_id s"
  "s_post_id (update_snapshot n js v f s) = s_post_id s"
  "s_snapshot_date (update_snapshot n js v f s) = s_snapshot_date s"
  by (simp_all add: update_snapshot_def)

lemma update_snapshot_twice [simp]:
  "update_snapshot n js v f (update_snapshot n js v f s) = update_snapshot n js v f s"
  by (simp add: update_snapshot_def)

lemma upsert_snapshot_tables [simp]:
  "posts (upsert_snapshot conn pid day n rs v f) = posts conn"
  "links (upsert_snapshot conn pid day n rs v f) = links conn"
  "seq_posts (upsert_snapshot conn pid day n rs v f) = seq_posts conn"
  "seq_links (upsert_snapshot conn pid day n rs v f) = seq_links conn"
  by (simp_all add: upsert_snapshot_def Let_def)

lemma snapshots_upsert_snapshot:
  "snapshots (upsert_snapshot conn pid day n rs v f) =
     (if list_ex (same_snapshot pid day) (snapshots conn)
      then map (\<lambda>s. if same_snapshot pid day s
                     then update_snapshot n (dumps_reactions rs) v f s else s) (snapshots conn)
      else snapshots conn @
             [\<lparr>s_id = new_rowid (seq_snapshots conn) (map s_id (snapshots conn)),
               s_post_id = pid, s_snapshot_date = day, s_total_reactions = n,
               s_reactions_json = dumps_reactions rs, s_views = v, s_forwards = f\<rparr>])"
  by (simp add: upsert_snapshot_def Let_def)

lemma upsert_snapshot_new_day:
  assumes "\<forall>s \<in> set (snapshots conn). s_post_id s = pid \<longrightarrow> s_snapshot_date s \<noteq> day"
  shows "snapshots (upsert_snapshot conn pid day n rs v f) =
           snapshots conn @
             [\<lparr>s_id = new_rowid (seq_snapshots conn) (map s_id (snapshots conn)),
               s_post_id = pid, s_snapshot_date = day, s_total_reactions = n,
               s_reactions_json = dumps_reactions rs, s_views = v, s_forwards = f\<rparr>]"
proof -
  from assms have "\<not> list_ex (same_snapshot pid day) (snapshots conn)"
    by (auto simp: list_ex_iff same_snapshot_def)
  then show ?thesis by (simp add: snapshots_upsert_snapshot)
qed

lemma upsert_snapshot_row_updated:
  assumes "s \<in> set (snapshots (upsert_snapshot conn pid day n rs v f))"
    and "same_snapshot pid day s"
  shows "update_snapshot n (dumps_reactions rs) v f s = s"
proof (cases "list_ex (same_snapshot pid day) (snapshots conn)")
  case True
  let ?upd = "\<lambda>s. if same_snapshot pid day s
                   then update_snapshot n (dumps_reactions rs) v f s else s"
  from True assms(1) have "s \<in> set (map ?upd (snapshots conn))"
    by (simp add: snapshots_upsert_snapshot)
  then obtain q where q: "s = ?upd q" unfolding set_map by blast
  with assms(2) show ?thesis
    by (cases "same_snapshot pid day q") simp_all
next
  case False
  let ?new = "\<lparr>s_id = new_rowid (seq_snapshots conn) (map s_id (snapshots conn)),
               s_post_id = pid, s_snapshot_date = day, s_total_reactions = n,
               s_reactions_json = dumps_reactions rs, s_views = v, s_forwards = f\<rparr>"
  from False have none: "\<not> same_snapshot pid day q" if "q \<in> set (snapshots conn)" for q
    using that by (auto simp: list_ex_iff)
  from False assms(1) have "s \<in> set (snapshots conn) \<or> s = ?new"
    by (auto simp: snapshots_upsert_snapshot)
  with assms(2) none have "s = ?new" by blast
  then show ?thesis by (simp add: update_snapshot_def)
qed

lemma upsert_snapshot_exists:
  "list_ex (same_snapshot pid day) (snapshots (upsert_snapshot conn pid day n rs v f))"
proof (cases "list_ex (same_snapshot pid day) (snapshots conn)")
  case True
  have "list_ex (same_snapshot pid day)
          (map (\<lambda>s. if same_snapshot pid day s
                     then update_snapshot n (dumps_reactions rs) v f s else s) xs)
        = list_ex (same_snapshot pid day) xs" for xs
    by (induction xs) auto
  with True show ?thesis
    by (simp add: snapshots_upsert_snapshot)
next
  case False
  then show ?thesis
    by (simp add: snapshots_upsert_snapshot same_snapshot_def)
qed

lemma upsert_snapshot_again:
  "snapshots (upsert_snapshot (upsert_snapshot conn pid day n rs v f) pid day n rs v f)
     = snapshots (upsert_snapshot conn pid day n rs v f)"
proof -
  let ?c = "upsert_snapshot conn pid day n rs v f"
  let ?upd = "\<lambda>s. if same_snapshot pid day s
                   then update_snapshot n (dumps_reactions rs) v f s else s"
  have "snapshots (upsert_snapshot ?c pid day n rs v f) = map ?upd (snapshots ?c)"
    using upsert_snapshot_exists [of pid day conn n rs v f]
    by (simp add: snapshots_upsert_snapshot [of ?c])
  also have "\<dots> = snapshots ?c"
    by (rule map_upd_id) (rule upsert_snapshot_row_updated)
  finally show ?thesis .
qed

lemma upsert_snapshot_keys:
  "map (\<lambda>s. (s_post_id s, s_snapshot_date s)) (snapshots (upsert_snapshot conn pid day n rs v f)) =
     (if list_ex (same_snapshot pid day) (snapshots conn)
      then map (\<lambda>s. (s_post_id s, s_snapshot_date s)) (snapshots conn)
      else map (\<lambda>s. (s_post_id s, s_snapshot_date s)) (snapshots conn) @ [(pid, day)])"
  by (simp add: snapshots_upsert_snapshot map_upd_key)

lemma upsert_snapshot_ids:
  "map s_id (snapshots (upsert_snapshot conn pid day n rs v f)) =
     (if list_ex (same_snapshot pid day) (snapshots conn)
      then map s_id (snapshots conn)
      else map s_id (snapshots conn)
             @ [new_rowid (seq_snapshots conn) (map s_id (snapshots conn))])"
  by (simp add: snapshots_upsert_snapshot map_upd_key)

lemma upsert_snapshot_distinct:
  assumes "distinct (map s_id (snapshots conn))"
    and "distinct (map (\<lambda>s. (s_post_id s, s_snapshot_date s)) (snapshots conn))"
  shows "distinct (map s_id (snapshots (upsert_snapshot conn pid day n rs v f)))
         \<and> distinct (map (\<lambda>s. (s_post_id s, s_snapshot_date s))
                       (snapshots (upsert_snapshot conn pid day n rs v f)))"
proof (cases "list_ex (same_snapshot pid day) (snapshots conn)")
  case True
  with assms show ?thesis
    by (simp add: upsert_snapshot_keys upsert_snapshot_ids)
next
  case False
  then have "(pid, day) \<notin> (\<lambda>s. (s_post_id s, s_snapshot_date s)) ` set (snapshots conn)"
    by (auto simp: list_ex_iff same_snapshot_def)
  with False assms new_rowid_notin [of "seq_snapshots conn" "map s_id (snapshots conn)"]
  show ?thesis
    by (simp add: upsert_snapshot_keys upsert_snapshot_ids)
qed

lemma upsert_snapshot_one_row:
  assumes "distinct (map (\<lambda>s. (s_post_id s, s_snapshot_date s)) (snapshots conn))"
  shows "length (filter (same_snapshot pid day)
                   (snapshots (upsert_snapshot conn pid day n rs v f))) = 1"
proof -
  let ?c = "upsert_snapshot conn pid day n rs v f"
  let ?k = "\<lambda>s. (s_post_id s, s_snapshot_date s)"
  have flt: "filter (same_snapshot pid day) xs = filter (\<lambda>s. ?k s = (pid, day)) xs" for xs
    by (rule filter_cong) (auto simp: same_snapshot_def)
  have dist: "distinct (map ?k (snapshots ?c))"
    using assms by (auto simp: upsert_snapshot_keys list_ex_iff same_snapshot_def)
  from upsert_snapshot_exists [of pid day conn n rs v f]
  obtain s where "s \<in> set (snapshots ?c)" "?k s = (pid, day)"
    by (auto simp: list_ex_iff same_snapshot_def)
  from distinct_key_filter_one [OF dist this] show ?thesis
    by (simp add: flt)
qed

subsection \<open>The constraints of the schema are kept\<close>

lemma upsert_post_schema_ok:
  assumes "schema_ok conn"
    and "upsert_post conn cid cu ct mid url dt mtext v f = Inr (pid, conn')"
  shows "schema_ok conn'"
proof -
  let ?k = "\<lambda>p. (p_channel_id p, p_message_id p)"
  from upsert_post_result [of conn cid cu ct mid url dt mtext v f] assms(2)
  have posts': "posts conn' =
         (if list_ex (same_post cid mid) (posts conn)
          then map (\<lambda>p. if same_post cid mid p then update_post cu ct url dt mtext v f p else p)
                 (posts conn)
          else posts conn @
                 [\<lparr>p_id = new_rowid (seq_posts conn) (map p_id (posts conn)),
                   p_channel_id = cid, p_channel_username = cu, p_channel_title = ct,
                   p_message_id = mid, p_post_url = url, p_post_datetime = dt,
                   p_message_text = mtext, p_views = v, p_forwards = f\<rparr>])"
    and rest: "links conn' = links conn" "snapshots conn' = snapshots conn"
    by auto
  have ids: "map p_id (posts conn') =
                (if list_ex (same_post cid mid) (posts conn) then map p_id (posts conn)
                 else map p_id (posts conn)
                        @ [new_rowid (seq_posts conn) (map p_id (posts conn))])"
    unfolding posts' by (simp add: map_upd_key)
  have keys: "map ?k (posts conn') =
                (if list_ex (same_post cid mid) (posts conn) then map ?k (posts conn)
                 else map ?k (posts conn) @ [(cid, mid)])"
    unfolding posts' by (simp add: map_upd_key)
  from assms(1) have "distinct (map p_id (posts conn'))"
    unfolding ids using new_rowid_notin [of "seq_posts conn" "map p_id (posts conn)"]
    by (simp add: schema_ok_def)
  moreover from assms(1) have "distinct (map ?k (posts conn'))"
    unfolding keys by (auto simp: schema_ok_def list_ex_iff same_post_key)
  ultimately show ?thesis
    using assms(1) rest by (simp add: schema_ok_def)
qed

lemma replace_links_schema_ok:
  "schema_ok conn \<Longrightarrow> schema_ok (replace_links conn pid lks)"
  using replace_links_distinct [of conn pid lks] by (simp add: schema_ok_def)

lemma upsert_snapshot_schema_ok:
  "schema_ok conn \<Longrightarrow> schema_ok (upsert_snapshot conn pid day n rs v f)"
  using upsert_snapshot_distinct [of conn pid day n rs v f] by (simp add: schema_ok_def)

subsection \<open>Ingestion of one message\<close>

lemma upsert_post_cong:
  assumes "posts c' = posts c" and "seq_posts c' = seq_posts c"
    and "upsert_post c cid cu ct mid url dt mtext v f = Inr (pid, x)"
  shows "\<exists>y. upsert_post c' cid cu ct mid url dt mtext v f = Inr (pid, y)
             \<and> posts y = posts x
             \<and> links y = links c' \<and> snapshots y = snapshots c'
             \<and> seq_snapshots y = seq_snapshots c'"
proof -
  from upsert_post_result [of c cid cu ct mid url dt mtext v f] assms(3)
  have x: "posts x =
         (if list_ex (same_post cid mid) (posts c)
          then map (\<lambda>p. if same_post cid mid p then update_post cu ct url dt mtext v f p else p)
                 (posts c)
          else posts c @
                 [\<lparr>p_id = new_rowid (seq_posts c) (map p_id (posts c)),
                   p_channel_id = cid, p_channel_username = cu, p_channel_title = ct,
                   p_message_id = mid, p_post_url = url, p_post_datetime = dt,
                   p_message_text = mtext, p_views = v, p_forwards = f\<rparr>])"
    and fx: "map_option p_id (find (same_post cid mid) (posts x)) = Some pid"
    by auto
  from upsert_post_result [of c' cid cu ct mid url dt mtext v f]
  obtain pid' y where r: "upsert_post c' cid cu ct mid url dt mtext v f = Inr (pid', y)"
    and y: "posts y =
         (if list_ex (same_post cid mid) (posts c')
          then map (\<lambda>p. if same_post cid mid p then update_post cu ct url dt mtext v f p else p)
                 (posts c')
          else posts c' @
                 [\<lparr>p_id = new_rowid (seq_posts c') (map p_id (posts c')),
                   p_channel_id = cid, p_channel_username = cu, p_channel_title = ct,
                   p_message_id = mid, p_post_url = url, p_post_datetime = dt,
                   p_message_text = mtext, p_views = v, p_forwards = f\<rparr>])"
    and fy: "map_option p_id (find (same_post cid mid) (posts y)) = Some pid'"
    and rest: "links y = links c'" "snapshots y = snapshots c'"
      "seq_snapshots y = seq_snapshots c'"
    by blast
  from x y assms(1,2) have same: "posts y = posts x" by simp
  with fx fy have "pid' = pid" by auto
  with r same rest show ?thesis by blast
qed

lemma upsert_post_existing_id:
  assumes "filter (same_post cid mid) (posts conn) = [row]"
    and "upsert_post conn cid cu ct mid url dt mtext v f = Inr (pid, conn')"
  shows "pid = p_id row"
proof -
  let ?upd = "\<lambda>p. if same_post cid mid p then update_post cu ct url dt mtext v f p else p"
  from assms(1) have "row \<in> set (filter (same_post cid mid) (posts conn))" by simp
  then have ex: "list_ex (same_post cid mid) (posts conn)"
    by (auto simp: list_ex_iff)
  have fnd: "find (same_post cid mid) xs = (case filter (same_post cid mid) xs of
                [] \<Rightarrow> None | a # as \<Rightarrow> Some a)" for xs
    by (induction xs) auto
  from upsert_post_result [of conn cid cu ct mid url dt mtext v f] assms(2) ex
  have posts': "posts conn' = map ?upd (posts conn)"
    and found: "map_option p_id (find (same_post cid mid) (posts conn')) = Some pid"
    by auto
  have "filter (same_post cid mid) (posts conn')
          = map (update_post cu ct url dt mtext v f) (filter (same_post cid mid) (posts conn))"
    unfolding posts' by (rule filter_upd) simp
  with assms(1) have "filter (same_post cid mid) (posts conn')
                        = [update_post cu ct url dt mtext v f row]"
    by simp
  with found show ?thesis
    by (simp add: fnd)
qed

lemma upsert_snapshot_same_rows:
  assumes "snapshots c = snapshots (upsert_snapshot conn pid day n rs v f)"
  shows "snapshots (upsert_snapshot c pid day n rs v f) = snapshots c"
proof -
  let ?upd = "\<lambda>s. if same_snapshot pid day s
                   then update_snapshot n (dumps_reactions rs) v f s else s"
  have "list_ex (same_snapshot pid day) (snapshots c)"
    unfolding assms by (rule upsert_snapshot_exists)
  then have "snapshots (upsert_snapshot c pid day n rs v f) = map ?upd (snapshots c)"
    by (simp add: snapshots_upsert_snapshot)
  also have "\<dots> = snapshots c"
    unfolding assms by (rule map_upd_id) (rule upsert_snapshot_row_updated)
  finally show ?thesis .
qed

lemma upsert_snapshot_dates:
  "s \<in> set (snapshots (upsert_snapshot conn pid day n rs v f)) \<Longrightarrow>
   s_snapshot_date s = day \<or> s_snapshot_date s \<in> s_snapshot_date ` set (snapshots conn)"
proof -
  assume "s \<in> set (snapshots (upsert_snapshot conn pid day n rs v f))"
  then have "(s_post_id s, s_snapshot_date s)
               \<in> set (map (\<lambda>s. (s_post_id s, s_snapshot_date s))
                        (snapshots (upsert_snapshot conn pid day n rs v f)))"
    by simp
  then show ?thesis
    unfolding upsert_snapshot_keys by (auto split: if_splits)
qed

text \<open>
  What \<open>ingest_message\<close> returns when link classification does not raise: the store
  after the three writes, \<open>pid\<close> being the identifier of the post.
\<close>

lemma ingest_message_result:
  assumes "links_with_types chk (extract_urls m) = Inr lks"
    and "upsert_post conn cid cu ct (msg_id m)
           (case cu of None \<Rightarrow> None
            | Some u \<Rightarrow> if u = [] then None
                        else Some (''https://t.me/'' @ u @ ''/'' @ str_int (msg_id m)))
           (isoformat dt) (msg_message m) (msg_views m) (msg_forwards m) = Inr (pid, conn1)"
  shows "ingest_message chk conn cid cu ct day dt m =
           Inr (upsert_snapshot (replace_links conn1 pid lks) pid day
                  (total_reactions (extract_reactions m)) (extract_reactions m)
                  (msg_views m) (msg_forwards m))"
  using assms by (simp add: ingest_message_def Let_def)

text \<open>
  Claim C2. On a store that satisfies the constraints of the schema, ingesting a message
  and ingesting the identical message again on the same day both succeed (when link
  classification does not raise) and leave exactly one post row for the identity
  \<open>(channel_id, message_id)\<close>, exactly one snapshot row for \<open>(post_id, snapshot_date)\<close>,
  and as the links of the post the freshly derived list, which has no duplicate URL; the
  second ingestion changes no post row, no snapshot row and no link of any post.
  Ingesting the post again on another day, for which the store holds no snapshot of this
  post yet (a later day, whatever snapshots other posts have of that day), leaves every
  snapshot row as it is and appends one row of this post for that day.
\<close>

theorem ingest_idempotent:
  assumes "schema_ok conn0"
    and "links_with_types chk (extract_urls m) = Inr lks"
  shows "\<exists>pid conn1 conn2.
      ingest_message chk conn0 cid cu ct day dt m = Inr conn1
    \<and> ingest_message chk conn1 cid cu ct day dt m = Inr conn2
    \<and> map p_id (filter (same_post cid (msg_id m)) (posts conn2)) = [pid]
    \<and> length (filter (same_snapshot pid day) (snapshots conn2)) = 1
    \<and> links_of conn2 pid = lks \<and> map fst lks = extract_urls m \<and> distinct (map fst lks)
    \<and> posts conn2 = posts conn1 \<and> snapshots conn2 = snapshots conn1
    \<and> (\<forall>pid'. links_of conn2 pid' = links_of conn1 pid')
    \<and> schema_ok conn2
    \<and> (\<forall>day' dt' m' lks'.
          msg_id m' = msg_id m
          \<and> (\<forall>s \<in> set (snapshots conn2). \<not> same_snapshot pid day' s)
          \<and> links_with_types chk (extract_urls m') = Inr lks' \<longrightarrow>
          (\<exists>conn3 s. ingest_message chk conn2 cid cu ct day' dt' m' = Inr conn3
                   \<and> snapshots conn3 = snapshots conn2 @ [s]
                   \<and> s_post_id s = pid \<and> s_snapshot_date s = day'
                   \<and> s_total_reactions s = total_reactions (extract_reactions m')))"
proof -
  let ?url = "\<lambda>m. case cu of None \<Rightarrow> None
                   | Some u \<Rightarrow> if u = [] then None
                               else Some (''https://t.me/'' @ u @ ''/'' @ str_int (msg_id m))"
  let ?n = "total_reactions (extract_reactions m)"
  let ?rs = "extract_reactions m"
  let ?mid = "msg_id m"
  let ?up = "\<lambda>c. upsert_post c cid cu ct ?mid (?url m) (isoformat dt) (msg_message m)
                   (msg_views m) (msg_forwards m)"
  let ?snap = "\<lambda>c pid. upsert_snapshot (replace_links c pid lks) pid day ?n ?rs
                         (msg_views m) (msg_forwards m)"
  have dl: "distinct (map fst lks)"
    by (rule links_with_types_extract_distinct [OF assms(2)])
  have ul: "map fst lks = extract_urls m"
    by (rule links_with_types_urls [OF assms(2)])

  \<comment> \<open>the first ingestion\<close>
  from upsert_post_result [of conn0 cid cu ct ?mid "?url m" "isoformat dt" "msg_message m"
      "msg_views m" "msg_forwards m"]
  obtain pid c1 where u1: "?up conn0 = Inr (pid, c1)"
    and c1: "links c1 = links conn0" "snapshots c1 = snapshots conn0"
      "seq_snapshots c1 = seq_snapshots conn0"
    by blast
  let ?A = "?snap c1 pid"
  have A: "ingest_message chk conn0 cid cu ct day dt m = Inr ?A"
    by (rule ingest_message_result [OF assms(2) u1])
  have ok1: "schema_ok c1"
    by (rule upsert_post_schema_ok [OF assms(1) u1])
  have okA: "schema_ok ?A"
    by (intro upsert_snapshot_schema_ok replace_links_schema_ok ok1)
  from assms(1) have "distinct (map (\<lambda>p. (p_channel_id p, p_message_id p)) (posts conn0))"
    by (simp add: schema_ok_def)
  from upsert_post_one_row [OF this u1]
  obtain row where row: "filter (same_post cid ?mid) (posts c1) = [row]" "p_id row = pid"
    by blast

  \<comment> \<open>the second ingestion\<close>
  from upsert_post_again [OF u1]
  obtain c1' where u1': "?up c1 = Inr (pid, c1')" and p1': "posts c1' = posts c1"
    by blast
  have "posts ?A = posts c1" "seq_posts ?A = seq_posts c1" by simp_all
  from upsert_post_cong [OF this u1']
  obtain c2 where u2: "?up ?A = Inr (pid, c2)" and c2: "posts c2 = posts c1'"
    "links c2 = links ?A" "snapshots c2 = snapshots ?A"
    by blast
  let ?B = "?snap c2 pid"
  have B: "ingest_message chk ?A cid cu ct day dt m = Inr ?B"
    by (rule ingest_message_result [OF assms(2) u2])
  have ok2: "schema_ok c2"
    by (rule upsert_post_schema_ok [OF okA u2])
  have okB: "schema_ok ?B"
    by (intro upsert_snapshot_schema_ok replace_links_schema_ok ok2)
  have postsB: "posts ?B = posts ?A"
    using c2 p1' by simp
  have one_post: "map p_id (filter (same_post cid ?mid) (posts ?B)) = [pid]"
    using row c2 p1' by simp
  have pre: "snapshots (replace_links c2 pid lks)
               = snapshots (upsert_snapshot (replace_links c1 pid lks) pid day ?n ?rs
                              (msg_views m) (msg_forwards m))"
    using c2 by simp
  have snapsB: "snapshots ?B = snapshots ?A"
    using upsert_snapshot_same_rows [OF pre] pre by simp
  have one_snap: "length (filter (same_snapshot pid day) (snapshots ?B)) = 1"
  proof (rule upsert_snapshot_one_row)
    from replace_links_schema_ok [OF ok2, of pid lks]
    show "distinct (map (\<lambda>s. (s_post_id s, s_snapshot_date s))
                      (snapshots (replace_links c2 pid lks)))"
      by (simp add: schema_ok_def)
  qed
  have links_upsert: "links_of (upsert_snapshot c p d n rs v f) q = links_of c q"
    for c p d n rs v f q
    by (simp add: links_of_def)
  have linksB: "links_of ?B pid = lks"
    by (simp add: links_upsert links_of_replace [OF dl])
  have linksA: "links_of ?A pid = lks"
    by (simp add: links_upsert links_of_replace [OF dl])
  have links_same: "\<forall>pid'. links_of ?B pid' = links_of ?A pid'"
  proof
    fix pid'
    show "links_of ?B pid' = links_of ?A pid'"
    proof (cases "pid' = pid")
      case True
      with linksA linksB show ?thesis by simp
    next
      case False
      have "links_of c2 pid' = links_of ?A pid'"
        using c2(2) by (simp add: links_of_def)
      with False show ?thesis
        by (simp add: links_upsert links_of_replace_other)
    qed
  qed

  \<comment> \<open>a later day\<close>
  have later: "\<exists>conn3 s. ingest_message chk ?B cid cu ct day' dt' m' = Inr conn3
                   \<and> snapshots conn3 = snapshots ?B @ [s]
                   \<and> s_post_id s = pid \<and> s_snapshot_date s = day'
                   \<and> s_total_reactions s = total_reactions (extract_reactions m')"
    if h: "msg_id m' = msg_id m
          \<and> (\<forall>s \<in> set (snapshots ?B). \<not> same_snapshot pid day' s)
          \<and> links_with_types chk (extract_urls m') = Inr lks'"
    for day' dt' m' lks'
  proof -
    from upsert_post_result [of ?B cid cu ct "msg_id m'" "?url m'" "isoformat dt'"
        "msg_message m'" "msg_views m'" "msg_forwards m'"]
    obtain pid3 c3 where u3: "upsert_post ?B cid cu ct (msg_id m') (?url m') (isoformat dt')
          (msg_message m') (msg_views m') (msg_forwards m') = Inr (pid3, c3)"
      and c3: "snapshots c3 = snapshots ?B" "seq_snapshots c3 = seq_snapshots ?B"
      by blast
    from one_post obtain rowB where rowB: "filter (same_post cid ?mid) (posts ?B) = [rowB]"
      "p_id rowB = pid"
      by auto
    from rowB(1) h have "filter (same_post cid (msg_id m')) (posts ?B) = [rowB]"
      by simp
    from upsert_post_existing_id [OF this u3] rowB(2) have pid3: "pid3 = pid"
      by simp
    let ?C = "upsert_snapshot (replace_links c3 pid lks') pid day'
                (total_reactions (extract_reactions m')) (extract_reactions m')
                (msg_views m') (msg_forwards m')"
    from h have lks': "links_with_types chk (extract_urls m') = Inr lks'" by simp
    have C: "ingest_message chk ?B cid cu ct day' dt' m' = Inr ?C"
      using ingest_message_result [OF lks' u3] unfolding pid3 .
    from h have none: "\<forall>s \<in> set (snapshots ?B). \<not> same_snapshot pid day' s"
      by (rule conjunct2 [THEN conjunct1])
    have "snapshots (replace_links c3 pid lks') = snapshots ?B"
      using c3 by simp
    with none have "\<forall>s \<in> set (snapshots (replace_links c3 pid lks')).
            s_post_id s = pid \<longrightarrow> s_snapshot_date s \<noteq> day'"
      unfolding same_snapshot_def by metis
    from upsert_snapshot_new_day [OF this]
    have "snapshots ?C = snapshots ?B @
             [\<lparr>s_id = new_rowid (seq_snapshots (replace_links c3 pid lks'))
                       (map s_id (snapshots (replace_links c3 pid lks'))),
               s_post_id = pid, s_snapshot_date = day',
               s_total_reactions = total_reactions (extract_reactions m'),
               s_reactions_json = dumps_reactions (extract_reactions m'),
               s_views = msg_views m', s_forwards = msg_forwards m'\<rparr>]"
      using c3 by simp
    with C show ?thesis by simp
  qed
  from A B one_post one_snap linksB ul dl postsB snapsB links_same okB later
  show ?thesis
    by (intro exI [of _ pid] exI [of _ ?A] exI [of _ ?B]) blast
qed

theorem ingest_idempotent_witness:
  "schema_ok github_db
   \<and> map (\<lambda>s. (s_post_id s, s_snapshot_date s)) (snapshots github_db) = [(1, 100)]
   \<and> links_with_types accept_bracketed (extract_urls linked_message)
       = Inr [(''https://arxiv.org/abs/1234'', ''research''),
              (''https://github.com/org/repo'', ''github'')]
   \<and> (\<exists>conn1 conn2 conn3 s.
         ingest_message accept_bracketed github_db 7 (Some ''chan_a'') ''Channel A'' 99
             (normalize_dt evening_day_9) linked_message = Inr conn1
       \<and> ingest_message accept_bracketed conn1 7 (Some ''chan_a'') ''Channel A'' 99
             (normalize_dt evening_day_9) linked_message = Inr conn2
       \<and> map p_id (filter (same_post 7 5) (posts conn2)) = [2]
       \<and> length (filter (same_snapshot 2 99) (snapshots conn2)) = 1
       \<and> links_of conn2 2 = [(''https://arxiv.org/abs/1234'', ''research''),
                               (''https://github.com/org/repo'', ''github'')]
       \<and> posts conn2 = posts conn1 \<and> snapshots conn2 = snapshots conn1
       \<and> ingest_message accept_bracketed conn2 7 (Some ''chan_a'') ''Channel A'' 100
             (normalize_dt evening_day_9) linked_message = Inr conn3
       \<and> snapshots conn3 = snapshots conn2 @ [s]
       \<and> s_post_id s = 2 \<and> s_snapshot_date s = 100)"
proof -
  let ?lks = "[(''https://arxiv.org/abs/1234'', ''research''),
               (''https://github.com/org/repo'', ''github'')]"
  let ?ingest = "\<lambda>conn. ingest_message accept_bracketed conn 7 (Some ''chan_a'') ''Channel A'' 99
                          (normalize_dt evening_day_9) linked_message"
  have ok: "schema_ok github_db"
    by (simp add: schema_ok_def github_db_def github_post_def)
  have sn: "map (\<lambda>s. (s_post_id s, s_snapshot_date s)) (snapshots github_db) = [(1, 100)]"
    by (simp add: github_db_def)
  have lks: "links_with_types accept_bracketed (extract_urls linked_message) = Inr ?lks"
    by code_simp
  have mid: "msg_id linked_message = 5"
    by (simp add: linked_message_def yesterday_message_def blank_message_def)
  have keys: "map (\<lambda>s. (s_post_id s, s_snapshot_date s))
                (snapshots (projr (?ingest (projr (?ingest github_db))))) = [(1, 100), (2, 99)]"
    by code_simp
  have ids: "map p_id (filter (same_post 7 5)
                (posts (projr (?ingest (projr (?ingest github_db)))))) = [2]"
    by code_simp
  from ingest_idempotent [OF ok lks, of 7 "Some ''chan_a''" "''Channel A''" 99
      "normalize_dt evening_day_9"]
  obtain pid conn1 conn2 where H:
    "ingest_message accept_bracketed github_db 7 (Some ''chan_a'') ''Channel A'' 99
          (normalize_dt evening_day_9) linked_message = Inr conn1
    \<and> ingest_message accept_bracketed conn1 7 (Some ''chan_a'') ''Channel A'' 99
          (normalize_dt evening_day_9) linked_message = Inr conn2
    \<and> map p_id (filter (same_post 7 (msg_id linked_message)) (posts conn2)) = [pid]
    \<and> length (filter (same_snapshot pid 99) (snapshots conn2)) = 1
    \<and> links_of conn2 pid = ?lks \<and> map fst ?lks = extract_urls linked_message
    \<and> distinct (map fst ?lks)
    \<and> posts conn2 = posts conn1 \<and> snapshots conn2 = snapshots conn1
    \<and> (\<forall>pid'. links_of conn2 pid' = links_of conn1 pid')
    \<and> schema_ok conn2
    \<and> (\<forall>day' dt' m' lks'.
          msg_id m' = msg_id linked_message
          \<and> (\<forall>s \<in> set (snapshots conn2). \<not> same_snapshot pid day' s)
          \<and> links_with_types accept_bracketed (extract_urls m') = Inr lks' \<longrightarrow>
          (\<exists>conn3 s. ingest_message accept_bracketed conn2 7 (Some ''chan_a'') ''Channel A''
                        day' dt' m' = Inr conn3
                   \<and> snapshots conn3 = snapshots conn2 @ [s]
                   \<and> s_post_id s = pid \<and> s_snapshot_date s = day'
                   \<and> s_total_reactions s = total_reactions (extract_reactions m')))"
    by (elim exE) (rule that)
  note a = H [THEN conjunct1]
  note r1 = H [THEN conjunct2]
  note b = r1 [THEN conjunct1]
  note r2 = r1 [THEN conjunct2]
  note c = r2 [THEN conjunct1]
  note r3 = r2 [THEN conjunct2]
  note d = r3 [THEN conjunct1]
  note r4 = r3 [THEN conjunct2]
  note e = r4 [THEN conjunct1]
  note r7 = r4 [THEN conjunct2, THEN conjunct2, THEN conjunct2]
  note f = r7 [THEN conjunct1] r7 [THEN conjunct2, THEN conjunct1]
  note later = r7 [THEN conjunct2, THEN conjunct2, THEN conjunct2, THEN conjunct2]
  from a b have c2: "conn2 = projr (?ingest (projr (?ingest github_db)))"
    by simp
  from c ids have pid: "pid = 2"
    unfolding c2 mid by simp
  have free: "\<forall>s \<in> set (snapshots conn2). \<not> same_snapshot pid 100 s"
  proof
    fix s
    assume "s \<in> set (snapshots conn2)"
    then have "(s_post_id s, s_snapshot_date s)
                 \<in> set (map (\<lambda>s. (s_post_id s, s_snapshot_date s)) (snapshots conn2))"
      by simp
    then have "(s_post_id s, s_snapshot_date s) \<in> {(1, 100), (2, 99)}"
      unfolding c2 keys by simp
    then show "\<not> same_snapshot pid 100 s"
      unfolding pid same_snapshot_def by auto
  qed
  with later [rule_format, of linked_message 100 ?lks "normalize_dt evening_day_9"] lks
  obtain conn3 s where
    g: "ingest_message accept_bracketed conn2 7 (Some ''chan_a'') ''Channel A'' 100
          (normalize_dt evening_day_9) linked_message = Inr conn3"
      "snapshots conn3 = snapshots conn2 @ [s]" "s_post_id s = pid" "s_snapshot_date s = 100"
    by auto
  from a b c d e f g mid have "\<exists>conn1 conn2 conn3 s.
         ingest_message accept_bracketed github_db 7 (Some ''chan_a'') ''Channel A'' 99
             (normalize_dt evening_day_9) linked_message = Inr conn1
       \<and> ingest_message accept_bracketed conn1 7 (Some ''chan_a'') ''Channel A'' 99
             (normalize_dt evening_day_9) linked_message = Inr conn2
       \<and> map p_id (filter (same_post 7 5) (posts conn2)) = [2]
       \<and> length (filter (same_snapshot 2 99) (snapshots conn2)) = 1
       \<and> links_of conn2 2 = ?lks
       \<and> posts conn2 = posts conn1 \<and> snapshots conn2 = snapshots conn1
       \<and> ingest_message accept_bracketed conn2 7 (Some ''chan_a'') ''Channel A'' 100
             (normalize_dt evening_day_9) linked_message = Inr conn3
       \<and> snapshots conn3 = snapshots conn2 @ [s]
       \<and> s_post_id s = 2 \<and> s_snapshot_date s = 100"
    unfolding pid
    by (intro exI [of _ conn1] exI [of _ conn2] exI [of _ conn3] exI [of _ s]) simp
  with ok sn lks show ?thesis by blast
qed

section \<open>Properties of the structured export\<close>

subsection \<open>Strings\<close>

lemma hex_val_hex_char: "d < 16 \<Longrightarrow> hex_val (hex_char d) = Some d"
  by (auto simp: hex_val_def hex_char_def Let_def)

lemma of_char_lt_256: "(of_char c :: nat) < 256"
proof -
  have "(of_char c :: nat) = of_char c mod 256"
    by (metis of_char_mod_256)
  then show ?thesis
    by (metis mod_less_divisor zero_less_numeral)
qed

lemma char_code_eq: "(of_char c :: nat) = of_char d \<longleftrightarrow> c = d"
  by (rule of_char_eq_iff)

lemma decode_uXXXX_escape:
  "decode_uXXXX (CHR ''0'' # CHR ''0'' # hex_char ((of_char c :: nat) div 16)
                   # hex_char ((of_char c :: nat) mod 16) # rest) = Some c"
proof -
  let ?n = "of_char c :: nat"
  have "?n < 16 * 16"
    using of_char_lt_256 [of c] by simp
  then have "?n div 16 < 16"
    by (rule less_mult_imp_div_less)
  then have a: "hex_val (hex_char (?n div 16)) = Some (?n div 16)"
    by (rule hex_val_hex_char)
  have b: "hex_val (hex_char (?n mod 16)) = Some (?n mod 16)"
    by (intro hex_val_hex_char) simp
  have z: "hex_val CHR ''0'' = Some 0"
    by (simp add: hex_val_def)
  show ?thesis
    by (simp add: decode_uXXXX_def a b z)
qed

lemma scanstring_escape_char:
  "scanstring (escape_char False c @ rest)
     = (case scanstring rest of None \<Rightarrow> None | Some (s, r) \<Rightarrow> Some (c # s, r))"
proof -
  let ?n = "of_char c :: nat"
  have e10: "?n = 10 \<longleftrightarrow> c = CHR 0x0A"
    using char_code_eq [of c "CHR 0x0A"] by simp
  have e13: "?n = 13 \<longleftrightarrow> c = CHR 0x0D"
    using char_code_eq [of c "CHR 0x0D"] by simp
  have e9: "?n = 9 \<longleftrightarrow> c = CHR 0x09"
    using char_code_eq [of c "CHR 0x09"] by simp
  have e8: "?n = 8 \<longleftrightarrow> c = CHR 0x08"
    using char_code_eq [of c "CHR 0x08"] by simp
  have e12: "?n = 12 \<longleftrightarrow> c = CHR 0x0C"
    using char_code_eq [of c "CHR 0x0C"] by simp
  consider (quote) "c = CHR 0x22" | (bs) "c = CHR 0x5C" | (nl) "c = CHR 0x0A"
    | (cr) "c = CHR 0x0D" | (tab) "c = CHR 0x09" | (b) "c = CHR 0x08" | (f) "c = CHR 0x0C"
    | (ctl) "c \<noteq> CHR 0x22" "c \<noteq> CHR 0x5C" "?n \<noteq> 10" "?n \<noteq> 13" "?n \<noteq> 9" "?n \<noteq> 8" "?n \<noteq> 12" "?n < 32"
    | (plain) "c \<noteq> CHR 0x22" "c \<noteq> CHR 0x5C" "?n \<noteq> 10" "?n \<noteq> 13" "?n \<noteq> 9" "?n \<noteq> 8" "?n \<noteq> 12" "\<not> ?n < 32"
    unfolding e10 e13 e9 e8 e12 by blast
  then show ?thesis
  proof cases
    case quote
    then show ?thesis by (simp add: escape_char_def backslash_def split: option.splits)
  next
    case bs
    then show ?thesis by (simp add: escape_char_def backslash_def split: option.splits)
  next
    case nl
    then show ?thesis by (simp add: escape_char_def backslash_def split: option.splits)
  next
    case cr
    then show ?thesis by (simp add: escape_char_def backslash_def split: option.splits)
  next
    case tab
    then show ?thesis by (simp add: escape_char_def backslash_def split: option.splits)
  next
    case b
    then show ?thesis by (simp add: escape_char_def backslash_def split: option.splits)
  next
    case f
    then show ?thesis by (simp add: escape_char_def backslash_def split: option.splits)
  next
    case ctl
    then have "escape_char False c
                 = [CHR 0x5C, CHR ''u'', CHR ''0'', CHR ''0'', hex_char (?n div 16),
                    hex_char (?n mod 16)]"
      by (simp add: escape_char_def Let_def)
    then show ?thesis
      by (simp add: decode_uXXXX_escape split: option.splits)
  next
    case plain
    then have "escape_char False c = [c]"
      by (simp add: escape_char_def Let_def)
    with plain show ?thesis
      by (simp split: option.splits)
  qed
qed

lemma scanstring_escaped:
  "scanstring (concat (map (escape_char False) s) @ CHR 0x22 # rest) = Some (s, rest)"
  by (induction s) (simp_all add: scanstring_escape_char del: scanstring.simps, simp)

lemma scan_encode_basestring:
  "encode_basestring False s @ rest = CHR 0x22 # concat (map (escape_char False) s) @ CHR 0x22 # rest"
  by (simp add: encode_basestring_def)

subsection \<open>Integers\<close>

lemma is_digit_digit_char: "d < 10 \<Longrightarrow> is_digit (digit_char d)"
  by (simp add: is_digit_def digit_char_def)

lemma digit_val_digit_char: "d < 10 \<Longrightarrow> digit_val (digit_char d) = d"
  by (simp add: digit_val_def digit_char_def)

lemma digit_char_zero: "d < 10 \<Longrightarrow> digit_char d = CHR ''0'' \<longleftrightarrow> d = 0"
proof -
  assume d: "d < 10"
  have "digit_char d = CHR ''0'' \<longleftrightarrow> (of_char (digit_char d) :: nat) = of_char CHR ''0''"
    by (simp only: of_char_eq_iff)
  also have "\<dots> \<longleftrightarrow> d = 0"
    using d by (simp add: digit_char_def)
  finally show ?thesis .
qed

lemma str_nat_digits: "\<forall>c \<in> set (str_nat n). is_digit c"
proof (induction n rule: str_nat.induct)
  case (1 n)
  show ?case
  proof (cases "n < 10")
    case True
    then show ?thesis by (subst str_nat.simps) (simp add: is_digit_digit_char)
  next
    case False
    with 1 show ?thesis by (subst str_nat.simps) (simp add: is_digit_digit_char)
  qed
qed

lemma str_nat_nonempty: "str_nat n \<noteq> []"
  by (subst str_nat.simps) simp

lemma digits_value_snoc: "digits_value (ds @ [d]) = 10 * digits_value ds + digit_val d"
  by (simp add: digits_value_def)

lemma digits_value_str_nat: "digits_value (str_nat n) = n"
proof (induction n rule: str_nat.induct)
  case (1 n)
  show ?case
  proof (cases "n < 10")
    case True
    then show ?thesis
      by (subst str_nat.simps) (simp add: digits_value_def digit_val_digit_char)
  next
    case False
    with 1 show ?thesis
      by (subst str_nat.simps) (simp add: digits_value_snoc digit_val_digit_char)
  qed
qed

lemma hd_str_nat_zero: "hd (str_nat n) = CHR ''0'' \<longleftrightarrow> n = 0"
proof (induction n rule: str_nat.induct)
  case (1 n)
  show ?case
  proof (cases "n < 10")
    case True
    then show ?thesis
      by (subst str_nat.simps) (simp add: digit_char_zero)
  next
    case False
    then have "hd (str_nat n) = hd (str_nat (n div 10))"
      by (subst str_nat.simps) (simp add: str_nat_nonempty)
    with 1 False show ?thesis by simp
  qed
qed

lemma not_digit_delimiter: "delimiter rest \<Longrightarrow> takeWhile is_digit rest = [] \<and> dropWhile is_digit rest = rest"
  by (cases rest) (auto simp: delimiter_def is_digit_def)

lemma scan_natural_str_nat:
  assumes "delimiter rest"
  shows "scan_natural (str_nat n @ rest) = Some (n, rest)"
proof -
  obtain c cs where s: "str_nat n = c # cs"
    using str_nat_nonempty [of n] by (cases "str_nat n") auto
  have dig: "\<forall>x \<in> set (c # cs). is_digit x"
    using str_nat_digits [of n] by (simp add: s)
  have "takeWhile is_digit ((c # cs) @ rest) = (c # cs) @ takeWhile is_digit rest"
    by (rule takeWhile_append2) (use dig in blast)
  then have tw: "takeWhile is_digit ((c # cs) @ rest) = c # cs"
    using not_digit_delimiter [OF assms] by simp
  have "dropWhile is_digit ((c # cs) @ rest) = dropWhile is_digit rest"
    by (rule dropWhile_append2) (use dig in blast)
  then have dw: "dropWhile is_digit ((c # cs) @ rest) = rest"
    using not_digit_delimiter [OF assms] by simp
  show ?thesis
  proof (cases "n = 0")
    case True
    then have "str_nat n = [CHR ''0'']"
      using digit_char_zero [of 0] by (subst str_nat.simps) simp
    then show ?thesis using True by (simp add: scan_natural_def)
  next
    case False
    with hd_str_nat_zero [of n] s have c0: "c \<noteq> CHR ''0''" by simp
    from dig have dc: "is_digit c" by simp
    have "scan_natural ((c # cs) @ rest)
            = Some (digits_value (takeWhile is_digit ((c # cs) @ rest)),
                    dropWhile is_digit ((c # cs) @ rest))"
      using c0 dc by (simp add: scan_natural_def)
    then show ?thesis
      unfolding tw dw unfolding s [symmetric] by (simp add: digits_value_str_nat)
  qed
qed

lemma delimiter_not_float: "delimiter rest \<Longrightarrow> \<not> has_fraction rest \<and> \<not> has_exponent rest"
  by (cases rest) (auto simp: delimiter_def has_fraction_def has_exponent_def split: list.splits)

lemma scan_number_str_int:
  assumes "delimiter rest"
  shows "scan_number (str_int i @ rest) = Some (i, rest)"
proof (cases "i < 0")
  case True
  then have s: "str_int i @ rest = CHR ''-'' # str_nat (nat (- i)) @ rest"
    by (simp add: str_int_def)
  show ?thesis
    unfolding s using True delimiter_not_float [OF assms]
    by (simp add: scan_number_def scan_natural_str_nat [OF assms])
next
  case False
  then have s: "str_int i = str_nat (nat i)"
    by (simp add: str_int_def)
  obtain c cs where cs: "str_nat (nat i) = c # cs"
    using str_nat_nonempty [of "nat i"] by (cases "str_nat (nat i)") auto
  have "is_digit c"
    using str_nat_digits [of "nat i"] by (simp add: cs)
  then have c: "c \<noteq> CHR ''-''"
    by (auto simp: is_digit_def)
  have "scan_number ((c # cs) @ rest)
          = (case map_option (\<lambda>(n, rest). (int n, rest)) (scan_natural ((c # cs) @ rest)) of
               None \<Rightarrow> None
             | Some (i, rest) \<Rightarrow> if has_fraction rest \<or> has_exponent rest then None
                                 else Some (i, rest))"
    using c by (simp add: scan_number_def)
  then show ?thesis
    unfolding s cs [symmetric] using False delimiter_not_float [OF assms]
    by (simp add: scan_natural_str_nat [OF assms])
qed

lemma str_int_first:
  "\<exists>c cs. str_int i = c # cs \<and> (c = CHR ''-'' \<or> is_digit c)"
proof (cases "i < 0")
  case True
  then show ?thesis by (simp add: str_int_def)
next
  case False
  obtain c cs where cs: "str_nat (nat i) = c # cs"
    using str_nat_nonempty [of "nat i"] by (cases "str_nat (nat i)") auto
  have "is_digit c"
    using str_nat_digits [of "nat i"] by (simp add: cs)
  with False cs show ?thesis by (simp add: str_int_def)
qed

subsection \<open>Values\<close>

lemma skip_ws_nonws: "\<not> is_ws c \<Longrightarrow> skip_ws (c # s) = c # s"
  by (simp add: skip_ws_def)

lemma skip_ws_space: "skip_ws (CHR '' '' # s) = skip_ws s"
  by (simp add: skip_ws_def is_ws_def)

lemma skip_ws_newline_indent: "skip_ws (newline_indent l @ s) = skip_ws s"
proof -
  have "dropWhile is_ws (replicate (2 * l) CHR '' '' @ s) = dropWhile is_ws s"
    by (rule dropWhile_append2) (simp add: is_ws_def)
  then show ?thesis
    by (simp add: skip_ws_def newline_indent_def is_ws_def)
qed

lemma delimiter_simps:
  "delimiter []" "delimiter (CHR '','' # s)" "delimiter (newline_indent l @ s)"
  by (simp_all add: delimiter_def newline_indent_def)

lemma dumps_first:
  "\<exists>c cs. dumps lvl v = c # cs \<and> \<not> is_ws c \<and> c \<noteq> CHR '']'' \<and> c \<noteq> CHR ''}''"
proof (cases v)
  case (JInt i)
  from str_int_first [of i] obtain c cs
    where "str_int i = c # cs" "c = CHR ''-'' \<or> is_digit c" by blast
  with JInt show ?thesis
    by (auto simp: is_ws_def is_digit_def)
qed (auto simp: is_ws_def encode_basestring_def)

lemma length_dumps_pos: "0 < length (dumps lvl v)"
  using dumps_first [of lvl v] by auto

lemma skip_ws_dumps: "skip_ws (dumps lvl v @ s) = dumps lvl v @ s"
  using dumps_first [of lvl v] by (auto simp: skip_ws_nonws)

lemma join_Cons:
  "join sep (x # xs) = x @ (case xs of [] \<Rightarrow> [] | y # ys \<Rightarrow> sep @ join sep (y # ys))"
  by (cases xs) simp_all

lemma scan_once_null: "scan_once (Suc n) (''null'' @ rest) = Some (JNull, rest)"
  by simp

lemma scan_once_true: "scan_once (Suc n) (''true'' @ rest) = Some (JBool True, rest)"
  by simp

lemma scan_once_false: "scan_once (Suc n) (''false'' @ rest) = Some (JBool False, rest)"
  by simp

lemma scan_once_str:
  "scan_once (Suc n) (encode_basestring False s @ rest) = Some (JStr s, rest)"
  by (simp add: encode_basestring_def scanstring_escaped)

lemma scan_once_int:
  assumes "delimiter rest"
  shows "scan_once (Suc n) (str_int i @ rest) = Some (JInt i, rest)"
proof -
  from str_int_first [of i] obtain c cs
    where s: "str_int i = c # cs" and c: "c = CHR ''-'' \<or> is_digit c" by blast
  from c have ne: "c \<noteq> CHR 0x22" "c \<noteq> CHR ''{''" "c \<noteq> CHR ''[''" "c \<noteq> CHR ''n''"
    "c \<noteq> CHR ''t''" "c \<noteq> CHR ''f''"
    by (auto simp: is_digit_def)
  have "scan_once (Suc n) ((c # cs) @ rest)
          = (case scan_number ((c # cs) @ rest) of
               None \<Rightarrow> None
             | Some (i, rest) \<Rightarrow> Some (JInt i, rest))"
    using ne by simp
  then show ?thesis
    unfolding s [symmetric] by (simp add: scan_number_str_int [OF assms])
qed

lemma scan_items_join:
  assumes elem: "\<And>v n rest. v \<in> set items \<Longrightarrow> delimiter rest \<Longrightarrow> length (dumps lvl v) \<le> n \<Longrightarrow>
                   scan_once n (dumps lvl v @ rest) = Some (v, rest)"
    and "items \<noteq> []"
    and "length (join (CHR '','' # newline_indent lvl) (map (dumps lvl) items)) < n"
  shows "scan_items n (join (CHR '','' # newline_indent lvl) (map (dumps lvl) items)
                        @ newline_indent l' @ CHR '']'' # rest) = Some (items, rest)"
  using assms
proof (induction items arbitrary: n)
  case Nil
  then show ?case by simp
next
  case (Cons v vs)
  let ?sep = "CHR '','' # newline_indent lvl"
  let ?close = "newline_indent l' @ CHR '']'' # rest"
  from Cons.prems(3) obtain m where n: "n = Suc m" by (cases n) auto
  show ?case
  proof (cases vs)
    case Nil
    with Cons.prems(3) n have len: "length (dumps lvl v) \<le> m" by simp
    have "scan_once m (dumps lvl v @ ?close) = Some (v, ?close)"
      by (rule Cons.prems(1)) (simp_all add: delimiter_simps len)
    then show ?thesis
      unfolding n using Nil
      by (simp add: skip_ws_newline_indent skip_ws_nonws is_ws_def)
  next
    case (Cons w ws)
    let ?J = "join ?sep (map (dumps lvl) (w # ws))"
    have J: "join ?sep (map (dumps lvl) (v # vs)) = dumps lvl v @ ?sep @ ?J"
      using Cons by simp
    from Cons.prems(3) have len: "length (dumps lvl v) \<le> m" and lenJ: "length ?J < m"
      unfolding J n using length_dumps_pos [of lvl v] by simp_all
    have one: "scan_once m (dumps lvl v @ ?sep @ ?J @ ?close) = Some (v, ?sep @ ?J @ ?close)"
      by (rule Cons.prems(1)) (simp_all add: delimiter_simps len)
    have "scan_items m (join ?sep (map (dumps lvl) vs) @ ?close) = Some (vs, rest)"
    proof (rule Cons.IH)
      show "vs \<noteq> []" using Cons by simp
      show "length (join ?sep (map (dumps lvl) vs)) < m" using lenJ Cons by simp
      show "scan_once n (dumps lvl x @ rest) = Some (x, rest)"
        if "x \<in> set vs" "delimiter rest" "length (dumps lvl x) \<le> n" for x n rest
        using that by (intro Cons.prems(1)) simp_all
    qed
    then have rest_items: "scan_items m (?J @ ?close) = Some (vs, rest)"
      using Cons by simp
    obtain c cs where first: "?J @ ?close = c # cs" "\<not> is_ws c"
      using dumps_first [of lvl w] by (cases ws) auto
    have sk: "skip_ws (newline_indent lvl @ ?J @ ?close) = ?J @ ?close"
      unfolding skip_ws_newline_indent first(1) using first(2) by (rule skip_ws_nonws)
    show ?thesis
      unfolding J n using one rest_items sk
      by (simp add: skip_ws_nonws is_ws_def)
  qed
qed

lemma scan_pairs_join:
  assumes elem: "\<And>kv n rest. kv \<in> set members \<Longrightarrow> delimiter rest \<Longrightarrow>
                   length (dumps lvl (snd kv)) \<le> n \<Longrightarrow>
                   scan_once n (dumps lvl (snd kv) @ rest) = Some (snd kv, rest)"
    and "members \<noteq> []"
    and "length (join (CHR '','' # newline_indent lvl)
                   (map (\<lambda>kv. encode_basestring False (fst kv) @ '': '' @ dumps lvl (snd kv))
                      members)) < n"
  shows "scan_pairs n (join (CHR '','' # newline_indent lvl)
                         (map (\<lambda>kv. encode_basestring False (fst kv) @ '': ''
                                      @ dumps lvl (snd kv)) members)
                        @ newline_indent l' @ CHR ''}'' # rest) = Some (members, rest)"
  using assms
proof (induction members arbitrary: n)
  case Nil
  then show ?case by simp
next
  case (Cons kv kvs)
  let ?sep = "CHR '','' # newline_indent lvl"
  let ?f = "\<lambda>kv. encode_basestring False (fst kv) @ '': '' @ dumps lvl (snd kv)"
  let ?close = "newline_indent l' @ CHR ''}'' # rest"
  obtain k v where kv: "kv = (k, v)" by (cases kv)
  from Cons.prems(3) obtain m where n: "n = Suc m" by (cases n) auto
  have key: "\<And>tail. ?f kv @ tail
               = CHR 0x22 # concat (map (escape_char False) k) @ CHR 0x22
                   # CHR '':'' # CHR '' '' # dumps lvl v @ tail"
    by (simp add: kv encode_basestring_def)
  have step: "scan_pairs (Suc m) (?f kv @ tail)
                = (case scan_once m (dumps lvl v @ tail) of
                     None \<Rightarrow> None
                   | Some (x, rest2) \<Rightarrow>
                       (case skip_ws rest2 of
                          [] \<Rightarrow> None
                        | d # rest3 \<Rightarrow>
                            if d = CHR ''}'' then Some ([(k, x)], rest3)
                            else if d = CHR '','' then
                              (case scan_pairs m (skip_ws rest3) of
                                 None \<Rightarrow> None
                               | Some (kvs, rest4) \<Rightarrow> Some ((k, x) # kvs, rest4))
                            else None))" for tail
    unfolding key
    by (simp add: scanstring_escaped skip_ws_nonws skip_ws_space skip_ws_dumps is_ws_def)
  show ?case
  proof (cases kvs)
    case Nil
    with Cons.prems(3) n have len: "length (dumps lvl v) \<le> m"
      by (simp add: kv)
    have "scan_once m (dumps lvl (snd kv) @ ?close) = Some (snd kv, ?close)"
      by (rule Cons.prems(1)) (simp_all add: delimiter_simps len kv)
    then have one: "scan_once m (dumps lvl v @ ?close) = Some (v, ?close)"
      by (simp add: kv)
    have "scan_pairs (Suc m) (?f kv @ ?close) = Some ([(k, v)], rest)"
      unfolding step one
      by (simp add: skip_ws_newline_indent skip_ws_nonws is_ws_def)
    then show ?thesis
      unfolding n using Nil by (simp add: kv)
  next
    case (Cons kw kws)
    let ?K = "join ?sep (map ?f (kw # kws))"
    have K: "join ?sep (map ?f (kv # kvs)) = ?f kv @ ?sep @ ?K"
      using Cons by simp
    from Cons.prems(3) have len: "length (dumps lvl v) \<le> m" and lenK: "length ?K < m"
      unfolding K n by (simp_all add: kv)
    have "scan_once m (dumps lvl (snd kv) @ ?sep @ ?K @ ?close)
            = Some (snd kv, ?sep @ ?K @ ?close)"
      by (rule Cons.prems(1)) (simp_all add: delimiter_simps len kv)
    then have one: "scan_once m (dumps lvl v @ ?sep @ ?K @ ?close)
                      = Some (v, ?sep @ ?K @ ?close)"
      by (simp add: kv)
    have "scan_pairs m (join ?sep (map ?f kvs) @ ?close) = Some (kvs, rest)"
    proof (rule Cons.IH)
      show "kvs \<noteq> []" using Cons by simp
      show "length (join ?sep (map ?f kvs)) < m" using lenK Cons by simp
      show "scan_once n (dumps lvl (snd x) @ rest) = Some (snd x, rest)"
        if "x \<in> set kvs" "delimiter rest" "length (dumps lvl (snd x)) \<le> n" for x n rest
        using that by (intro Cons.prems(1)) simp_all
    qed
    then have rest_pairs: "scan_pairs m (?K @ ?close) = Some (kvs, rest)"
      using Cons by simp
    obtain cs where first: "?K @ ?close = CHR 0x22 # cs"
      by (cases kws) (simp_all add: encode_basestring_def)
    have sk: "skip_ws (newline_indent lvl @ ?K @ ?close) = ?K @ ?close"
      unfolding skip_ws_newline_indent first by (rule skip_ws_nonws) (simp add: is_ws_def)
    have "scan_pairs (Suc m) (?f kv @ ?sep @ ?K @ ?close) = Some ((k, v) # kvs, rest)"
      unfolding step one using rest_pairs sk
      by (simp add: skip_ws_nonws is_ws_def)
    then show ?thesis
      unfolding K n by (simp add: kv)
  qed
qed

lemma update_fresh: "k \<notin> fst ` set al \<Longrightarrow> AList.update k v al = al @ [(k, v)]"
  by (induction al) auto

lemma fold_update_distinct:
  "distinct (map fst (acc @ ms)) \<Longrightarrow>
   fold (\<lambda>kv d. AList.update (fst kv) (snd kv) d) ms acc = acc @ ms"
proof (induction ms arbitrary: acc)
  case Nil
  show ?case by simp
next
  case (Cons kv ms)
  from Cons.prems have fresh: "fst kv \<notin> fst ` set acc"
    by auto
  have "fold (\<lambda>kv d. AList.update (fst kv) (snd kv) d) ms (acc @ [kv]) = (acc @ [kv]) @ ms"
    by (rule Cons.IH) (use Cons.prems in simp)
  then show ?case
    using fresh by (simp add: update_fresh)
qed

lemma dict_of_pairs_distinct: "distinct (map fst ms) \<Longrightarrow> dict_of_pairs ms = ms"
  using fold_update_distinct [of "[]" ms] by (simp add: dict_of_pairs_def)

lemma scan_once_dumps:
  "distinct_keys v \<Longrightarrow> delimiter rest \<Longrightarrow> length (dumps lvl v) \<le> n \<Longrightarrow>
   scan_once n (dumps lvl v @ rest) = Some (v, rest)"
proof (induction v arbitrary: lvl n rest)
  case JNull
  then obtain m where "n = Suc m" by (cases n) auto
  then show ?case by simp
next
  case (JBool b)
  from JBool(3) length_dumps_pos [of lvl "JBool b"] obtain m where "n = Suc m"
    by (cases n) auto
  then show ?case by simp
next
  case (JInt i)
  from JInt(3) length_dumps_pos [of lvl "JInt i"] obtain m where "n = Suc m"
    by (cases n) auto
  with scan_once_int [OF JInt(2), of m i] show ?case
    by (simp del: scan_once.simps)
next
  case (JStr s)
  from JStr(3) length_dumps_pos [of lvl "JStr s"] obtain m where "n = Suc m"
    by (cases n) auto
  then show ?case using scan_once_str [of m s rest] by simp
next
  case (JArr items)
  from JArr.prems(3) length_dumps_pos [of lvl "JArr items"] obtain m where n: "n = Suc m"
    by (cases n) auto
  show ?case
  proof (cases "items = []")
    case True
    then show ?thesis by (simp add: n skip_ws_nonws is_ws_def)
  next
    case False
    let ?J = "join (CHR '','' # newline_indent (Suc lvl)) (map (dumps (Suc lvl)) items)"
    let ?close = "newline_indent lvl @ CHR '']'' # rest"
    have d: "dumps lvl (JArr items) @ rest
               = CHR ''['' # newline_indent (Suc lvl) @ ?J @ ?close"
      using False by simp
    from False obtain v vs where items: "items = v # vs" by (cases items) auto
    obtain c cs where first: "?J @ ?close = c # cs" "\<not> is_ws c" "c \<noteq> CHR '']''"
      using dumps_first [of "Suc lvl" v] unfolding items by (cases vs) auto
    have sk: "skip_ws (newline_indent (Suc lvl) @ ?J @ ?close) = c # cs"
      unfolding skip_ws_newline_indent first(1) using first(2) by (rule skip_ws_nonws)
    have lenJ: "length ?J < m"
      using JArr.prems(3) False unfolding n by simp
    have "scan_items m (?J @ ?close) = Some (items, rest)"
    proof (rule scan_items_join [OF _ False lenJ])
      fix x k r
      assume x: "x \<in> set items" and r: "delimiter r" and k: "length (dumps (Suc lvl) x) \<le> k"
      from JArr.prems(1) x have "distinct_keys x"
        by (simp add: list_all_iff)
      from JArr.IH [OF x this r k]
      show "scan_once k (dumps (Suc lvl) x @ r) = Some (x, r)" .
    qed
    then have "scan_items m (c # cs) = Some (items, rest)"
      unfolding first(1) .
    then show ?thesis
      unfolding d n using sk first(3) by simp
  qed
next
  case (JObj members)
  from JObj.prems(3) length_dumps_pos [of lvl "JObj members"] obtain m where n: "n = Suc m"
    by (cases n) auto
  show ?case
  proof (cases "members = []")
    case True
    then show ?thesis by (simp add: n skip_ws_nonws is_ws_def)
  next
    case False
    let ?f = "\<lambda>kv. encode_basestring False (fst kv) @ '': '' @ dumps (Suc lvl) (snd kv)"
    let ?K = "join (CHR '','' # newline_indent (Suc lvl)) (map ?f members)"
    let ?close = "newline_indent lvl @ CHR ''}'' # rest"
    have d: "dumps lvl (JObj members) @ rest
               = CHR ''{'' # newline_indent (Suc lvl) @ ?K @ ?close"
      using False by simp
    from False obtain kv kvs where members: "members = kv # kvs" by (cases members) auto
    obtain cs where first: "?K @ ?close = CHR 0x22 # cs"
      unfolding members by (cases kvs) (simp_all add: encode_basestring_def)
    have sk: "skip_ws (newline_indent (Suc lvl) @ ?K @ ?close) = CHR 0x22 # cs"
      unfolding skip_ws_newline_indent first by (rule skip_ws_nonws) (simp add: is_ws_def)
    have lenK: "length ?K < m"
      using JObj.prems(3) False unfolding n by simp
    have "scan_pairs m (?K @ ?close) = Some (members, rest)"
    proof (rule scan_pairs_join [OF _ False lenK])
      fix x k r
      assume x: "x \<in> set members" and r: "delimiter r"
        and k: "length (dumps (Suc lvl) (snd x)) \<le> k"
      from JObj.prems(1) x have dk: "distinct_keys (snd x)"
        by (simp add: list_all_iff)
      have "snd x \<in> Basic_BNFs.snds x"
        by (cases x) simp
      from JObj.IH [OF x this dk r k]
      show "scan_once k (dumps (Suc lvl) (snd x) @ r) = Some (snd x, r)" .
    qed
    then have "scan_pairs m (CHR 0x22 # cs) = Some (members, rest)"
      unfolding first .
    moreover from JObj.prems(1) have "dict_of_pairs members = members"
      by (simp add: dict_of_pairs_distinct)
    ultimately show ?thesis
      unfolding d n using sk by simp
  qed
qed

lemma loads_dumps: "distinct_keys v \<Longrightarrow> loads (dumps 0 v) = Some v"
proof -
  assume dk: "distinct_keys v"
  have "scan_once (Suc (length (dumps 0 v))) (dumps 0 v @ []) = Some (v, [])"
    by (rule scan_once_dumps [OF dk]) (simp_all add: delimiter_simps)
  moreover have "skip_ws (dumps 0 v) = dumps 0 v"
    using skip_ws_dumps [of 0 v "[]"] by simp
  ultimately show ?thesis
    by (simp add: loads_def skip_ws_def)
qed

lemma get_strs_map_JStr:
  "concat (map ((\<lambda>v. case v of JStr s \<Rightarrow> [s] | _ \<Rightarrow> []) \<circ> JStr) xs) = xs"
  by (induction xs) simp_all

lemma post_of_dict_post_to_dict: "post_of_dict (post_to_dict p) = Some p"
  by (cases p)
     (simp add: post_of_dict_def post_to_dict_def get_str_def get_int_def get_strs_def
        opt_str_def opt_int_def get_strs_map_JStr split: option.splits)

lemma distinct_keys_post_to_dict: "distinct_keys (JObj (post_to_dict p))"
  by (simp add: post_to_dict_def opt_str_def opt_int_def list_all_iff
      split: option.splits)

lemma posts_of_items_payload:
  "posts_of_items (map (\<lambda>p. JObj (post_to_dict p)) ps) = Some ps"
  by (induction ps) (simp_all add: post_of_dict_post_to_dict)

text \<open>
  Claim C9. For every list of ranked posts, parsing the text that \<open>export_top_posts_json\<close>
  writes yields the list of the dictionaries of the posts, with the thirteen fields of
  every post under their keys, and reading the fields back by their keys yields the
  posts themselves: the export loses nothing.
\<close>

theorem export_round_trip:
  "loads (export_top_posts_json top_posts)
     = Some (JArr (map (\<lambda>p. JObj (post_to_dict p)) top_posts))
   \<and> read_export (export_top_posts_json top_posts) = Some top_posts"
proof -
  have dk: "distinct_keys (JArr (map (\<lambda>p. JObj (post_to_dict p)) top_posts))"
    using distinct_keys_post_to_dict by (simp add: list_all_iff)
  have l: "loads (export_top_posts_json top_posts)
     = Some (JArr (map (\<lambda>p. JObj (post_to_dict p)) top_posts))"
    unfolding export_top_posts_json_def by (rule loads_dumps [OF dk])
  then show ?thesis
    by (simp add: read_export_def posts_of_items_payload)
qed

theorem export_round_trip_witness:
  "export_top_posts_json [sample_post, sample_post] = sample_export
   \<and> read_export sample_export = Some [sample_post, sample_post]"
proof -
  have e: "export_top_posts_json [sample_post, sample_post] = sample_export"
    by code_simp
  from export_round_trip [of "[sample_post, sample_post]"] show ?thesis
    unfolding e by simp
qed

end
